theory Spec2Isabelle
  imports Main "HOL-Library.AList"
begin

section \<open>The score table and \<open>_select_model\<close>\<close>

text \<open>
  \<open>LLMRequest.model_usage\<close> is a Python dict from model name to the tuple
  \<open>(total_tokens, penalty, usage_penalty)\<close>. A dict keeps the insertion order of its keys
  and \<open>min\<close> breaks ties by that order, so the table is an association list; a store
  \<open>d[k] = v\<close> is \<open>AList.update k v d\<close> (in place for a key that is there, at the end for
  a new one) and a read \<open>d[k]\<close> is \<open>map_of d k\<close>. Python integers are unbounded: \<open>int\<close>.
\<close>

type_synonym scores = "int \<times> int \<times> int"
type_synonym usage = "(string \<times> scores) list"

text \<open>The dict comprehension of \<open>__init__\<close>: every model of the task starts at \<open>(0, 0, 0)\<close>.\<close>

definition init_usage :: "string list \<Rightarrow> usage" where
  "init_usage model_list = foldl (\<lambda>d model. AList.update model (0, 0, 0) d) [] model_list"

text \<open>The key of \<open>min\<close> in \<open>_select_model\<close>.\<close>

definition cost :: "scores \<Rightarrow> int" where
  "cost s = (case s of (total_tokens, penalty, usage_penalty) \<Rightarrow>
               total_tokens + penalty * 300 + usage_penalty * 1000)"

text \<open>
  The filter of the comprehension: \<open>not exclude_models or model not in exclude_models\<close>.
  \<open>exclude_models\<close> defaults to \<open>None\<close>; \<open>None\<close> and the empty set are both falsy.
\<close>

definition keeps :: "string set option \<Rightarrow> string \<Rightarrow> bool" where
  "keeps exclude_models model =
     (case exclude_models of None \<Rightarrow> True | Some X \<Rightarrow> X = {} \<or> model \<notin> X)"

definition available_models :: "usage \<Rightarrow> string set option \<Rightarrow> usage" where
  "available_models table exclude_models =
     filter (\<lambda>(model, scores). keeps exclude_models model) table"

text \<open>
  Python's \<open>min(iterable, key=f)\<close> on a non-empty iterable: the first element whose key is
  least (a later element replaces the best so far only when its key is strictly smaller).
\<close>

fun min_from :: "('a \<Rightarrow> int) \<Rightarrow> 'a \<Rightarrow> 'a list \<Rightarrow> 'a" where
  "min_from key best [] = best"
| "min_from key best (x # xs) = min_from key (if key x < key best then x else best) xs"

datatype runtime_error = NoModelAvailable | AllModelsFailed | EmbeddingFailed

text \<open>
  \<open>_select_model\<close>. The configuration lookups (\<open>model_config.get_model_info\<close>,
  \<open>get_provider\<close>, the client registry) are not part of this file; a model is identified
  by its name, and \<open>model_info.name\<close> is the name it was looked up under. The result is the
  chosen name and the table after the in-flight increment, or the \<open>RuntimeError\<close>.
\<close>

definition select_model :: "usage \<Rightarrow> string set option \<Rightarrow> runtime_error + (string \<times> usage)" where
  "select_model table exclude_models =
     (let available = available_models table exclude_models in
      case map fst available of
        [] \<Rightarrow> Inl NoModelAvailable
      | k # ks \<Rightarrow>
          (let least_used_model_name = min_from (\<lambda>k. cost (the (map_of available k))) k ks in
           case the (map_of table least_used_model_name) of
             (total_tokens, penalty, usage_penalty) \<Rightarrow>
               Inr (least_used_model_name,
                    AList.update least_used_model_name
                      (total_tokens, penalty, usage_penalty + 1) table)))"

section \<open>Exceptions, the client and the trace\<close>

text \<open>
  The three messages \<open>ModelAttemptFailed\<close> is raised with: retries used up
  (\<open>RetryExhausted\<close>), a hard error (\<open>HardError\<close>), never attempted because the retry count
  is configured as zero or less (\<open>NeverAttempted\<close>).
\<close>

datatype failure = RetryExhausted | HardError | NeverAttempted

text \<open>
  The exceptions this file raises or catches. \<open>ModelAttemptFailed\<close> carries its message and
  its \<open>original_exception\<close>. \<open>CancelledError\<close> stands for the exceptions that are not
  subclasses of \<open>Exception\<close> (task cancellation), which no \<open>except Exception\<close> clause
  catches; \<open>OtherException\<close> for any other subclass of \<open>Exception\<close>.
\<close>

datatype exc =
    EmptyResponseException
  | NetworkConnectionError
  | RespNotOkException (status_code: int)
  | AssertionError
  | OtherException
  | CancelledError
  | ModelAttemptFailed failure "exc option"
  | RuntimeError runtime_error

type_synonym message = string

datatype api_response = APIResponse string

datatype request_type = RESPONSE | EMBEDDING | AUDIO

text \<open>
  What a run does to the outside, in order: a model was selected, a client method was
  awaited (with the model and the payload it was given), \<open>asyncio.sleep\<close> was awaited,
  \<open>compress_messages\<close> was called.
\<close>

datatype event =
    Select string
  | GetResponse string "message list"
  | GetEmbedding string string
  | GetAudio string string
  | Sleep int
  | Compress "message list"

text \<open>
  The client is an external collaborator: each awaited call either returns a response or
  raises. A run is given the outcomes of the calls it will make, in order; when the run
  awaits a call and no outcome is left, the call never comes back and the run has no
  result (\<open>None\<close>).
\<close>

datatype outcome = Returns api_response | Raises exc

text \<open>
  What the configuration and \<open>utils.compress_messages\<close> supply: per model, the provider's
  \<open>max_retry\<close> and \<open>retry_interval\<close>; and the compressor.
\<close>

record env =
  max_retry :: "string \<Rightarrow> int"
  retry_interval :: "string \<Rightarrow> int"
  compress_messages :: "message list \<Rightarrow> message list"

text \<open>
  The arguments of \<open>_execute_request\<close> that decide control flow. The generation
  parameters (tool options, response format, handlers, temperature, max tokens) are only
  handed on to the client. \<open>message_factory\<close> is a callable of the caller's: given the
  client of the selected model it returns the message list, or it raises.
\<close>

record request =
  request_type :: request_type
  message_factory :: "(string \<Rightarrow> exc + message list) option"
  embedding_input :: "string option"
  audio_base64 :: "string option"

section \<open>\<open>_attempt_request_on_model\<close>\<close>

text \<open>Truthiness of an \<open>Optional[List[Message]]\<close>: \<open>None\<close> and \<open>[]\<close> are falsy.\<close>

definition truthy :: "message list option \<Rightarrow> bool" where
  "truthy compressed_messages =
     (case compressed_messages of None \<Rightarrow> False | Some ms \<Rightarrow> ms \<noteq> [])"

text \<open>\<open>compressed_messages or message_list\<close>.\<close>

definition payload :: "message list option \<Rightarrow> message list \<Rightarrow> message list" where
  "payload compressed_messages message_list =
     (if truthy compressed_messages then the compressed_messages else message_list)"

text \<open>
  The \<open>try\<close> body up to the awaited call: which client method is called and with what, or
  the \<open>AssertionError\<close> of \<open>assert embedding_input is not None\<close> and
  \<open>assert audio_base64 is not None\<close>.
\<close>

definition client_call :: "string \<Rightarrow> request \<Rightarrow> message list \<Rightarrow> exc + event" where
  "client_call model req msgs =
     (case request_type req of
        RESPONSE \<Rightarrow> Inr (GetResponse model msgs)
      | EMBEDDING \<Rightarrow>
          (case embedding_input req of
             None \<Rightarrow> Inl AssertionError
           | Some x \<Rightarrow> Inr (GetEmbedding model x))
      | AUDIO \<Rightarrow>
          (case audio_base64 req of
             None \<Rightarrow> Inl AssertionError
           | Some x \<Rightarrow> Inr (GetAudio model x)))"

text \<open>
  One pass through the \<open>except\<close> clauses after the awaited call raised: either the loop
  goes round again (\<open>Again\<close>, with the new \<open>retry_remain\<close> and \<open>compressed_messages\<close>) or
  the function is left (\<open>Done\<close>), by an exception.
\<close>

datatype step =
    Again int "message list option" "event list"
  | Done "exc + api_response" "event list"

definition retry_or_fail :: "env \<Rightarrow> string \<Rightarrow> int \<Rightarrow> message list option \<Rightarrow> event list \<Rightarrow> exc \<Rightarrow> step" where
  "retry_or_fail env model retry_remain compressed_messages tr e =
     (let retry_remain = retry_remain - 1 in
      if retry_remain \<le> 0 then Done (Inl (ModelAttemptFailed RetryExhausted (Some e))) tr
      else Again retry_remain compressed_messages (tr @ [Sleep (retry_interval env model)]))"

fun except_clauses ::
  "env \<Rightarrow> string \<Rightarrow> message list \<Rightarrow> int \<Rightarrow> message list option \<Rightarrow> event list \<Rightarrow> exc \<Rightarrow> step" where
  "except_clauses env model message_list retry_remain compressed_messages tr EmptyResponseException =
     retry_or_fail env model retry_remain compressed_messages tr EmptyResponseException"
| "except_clauses env model message_list retry_remain compressed_messages tr NetworkConnectionError =
     retry_or_fail env model retry_remain compressed_messages tr NetworkConnectionError"
| "except_clauses env model message_list retry_remain compressed_messages tr (RespNotOkException status) =
     (if status = 429 \<or> status \<ge> 500 then
        retry_or_fail env model retry_remain compressed_messages tr (RespNotOkException status)
      else if status = 413 \<and> message_list \<noteq> [] \<and> \<not> truthy compressed_messages then
        Again retry_remain (Some (compress_messages env message_list)) (tr @ [Compress message_list])
      else Done (Inl (ModelAttemptFailed HardError (Some (RespNotOkException status)))) tr)"
| "except_clauses env model message_list retry_remain compressed_messages tr CancelledError =
     Done (Inl CancelledError) tr"
| "except_clauses env model message_list retry_remain compressed_messages tr e =
     Done (Inl (ModelAttemptFailed HardError (Some e))) tr"

text \<open>
  The \<open>while retry_remain > 0\<close> loop and the \<open>raise\<close> after it. Every round awaits one
  client call, so the loop is a recursion over the outcomes still to come.
\<close>

fun retry_loop ::
  "env \<Rightarrow> string \<Rightarrow> request \<Rightarrow> message list \<Rightarrow> int \<Rightarrow> message list option \<Rightarrow> event list \<Rightarrow>
   outcome list \<Rightarrow> ((exc + api_response) \<times> event list \<times> outcome list) option" where
  "retry_loop env model req message_list retry_remain compressed_messages tr [] =
     (if retry_remain > 0 then
        (case client_call model req (payload compressed_messages message_list) of
           Inl e \<Rightarrow> Some (Inl (ModelAttemptFailed HardError (Some e)), tr, [])
         | Inr call \<Rightarrow> None)
      else Some (Inl (ModelAttemptFailed NeverAttempted None), tr, []))"
| "retry_loop env model req message_list retry_remain compressed_messages tr (out # rest) =
     (if retry_remain > 0 then
        (case client_call model req (payload compressed_messages message_list) of
           Inl e \<Rightarrow> Some (Inl (ModelAttemptFailed HardError (Some e)), tr, out # rest)
         | Inr call \<Rightarrow>
             (case out of
                Returns response \<Rightarrow> Some (Inr response, tr @ [call], rest)
              | Raises e \<Rightarrow>
                  (case except_clauses env model message_list retry_remain compressed_messages
                          (tr @ [call]) e of
                     Done result tr' \<Rightarrow> Some (result, tr', rest)
                   | Again retry_remain' compressed_messages' tr' \<Rightarrow>
                       retry_loop env model req message_list retry_remain' compressed_messages'
                         tr' rest)))
      else Some (Inl (ModelAttemptFailed NeverAttempted None), tr, out # rest))"

definition attempt_request_on_model ::
  "env \<Rightarrow> string \<Rightarrow> request \<Rightarrow> message list \<Rightarrow> message list option \<Rightarrow> event list \<Rightarrow>
   outcome list \<Rightarrow> ((exc + api_response) \<times> event list \<times> outcome list) option" where
  "attempt_request_on_model env model req message_list compressed_messages tr script =
     retry_loop env model req message_list (max_retry env model) compressed_messages tr script"

section \<open>\<open>_execute_request\<close>\<close>

text \<open>
  The state of a run of \<open>_execute_request\<close>: the object's \<open>model_for_task.model_list\<close> and
  \<open>model_usage\<close>, the local variables of the function, the trace so far and the client
  outcomes still to come.
\<close>

record run =
  model_list :: "string list"
  model_usage :: usage
  failed_models_this_request :: "string set"
  last_exception :: "exc option"
  compressed_messages :: "message list option"
  model_info :: "string option"
  trace :: "event list"
  pending :: "outcome list"

text \<open>\<open>LLMRequest.__init__\<close>, with nothing done yet.\<close>

definition new_request :: "string list \<Rightarrow> outcome list \<Rightarrow> run" where
  "new_request models script =
     \<lparr>model_list = models, model_usage = init_usage models,
      failed_models_this_request = {}, last_exception = None, compressed_messages = None,
      model_info = None, trace = [], pending = script\<rparr>"

text \<open>The two read-modify-write updates of a table entry: in the handler and in \<open>finally\<close>.\<close>

definition add_penalty :: "usage \<Rightarrow> string \<Rightarrow> usage" where
  "add_penalty table name =
     (case the (map_of table name) of
        (total_tokens, penalty, usage_penalty) \<Rightarrow>
          AList.update name (total_tokens, penalty + 1, usage_penalty) table)"

definition finally_block :: "usage \<Rightarrow> string \<Rightarrow> usage" where
  "finally_block table name =
     (case the (map_of table name) of
        (total_tokens, penalty, usage_penalty) \<Rightarrow>
          if usage_penalty > 0
          then AList.update name (total_tokens, penalty, usage_penalty - 1) table
          else table)"

text \<open>How one round of the \<open>for\<close> loop ends.\<close>

datatype control = Return api_response string | Raise exc | Continue

text \<open>
  What follows the attempt on the selected model: \<open>return\<close>, the
  \<open>except ModelAttemptFailed\<close> clause, or an exception no clause catches; and then
  \<open>finally\<close> in each case. \<open>e.original_exception or e\<close> is the original exception when
  there is one (an exception object is truthy).
\<close>

fun after_attempt :: "string \<Rightarrow> run \<Rightarrow> exc + api_response \<Rightarrow> control \<times> run" where
  "after_attempt name st (Inr response) =
     (Return response name, st\<lparr>model_usage := finally_block (model_usage st) name\<rparr>)"
| "after_attempt name st (Inl (ModelAttemptFailed msg original_exception)) =
     (let last = (case original_exception of
                    Some e \<Rightarrow> e
                  | None \<Rightarrow> ModelAttemptFailed msg original_exception);
          st = st\<lparr>last_exception := Some last,
                  model_usage := add_penalty (model_usage st) name,
                  failed_models_this_request := insert name (failed_models_this_request st)\<rparr>
      in (if last = RespNotOkException 400 then Raise last else Continue,
          st\<lparr>model_usage := finally_block (model_usage st) name\<rparr>))"
| "after_attempt name st (Inl e) =
     (Raise e, st\<lparr>model_usage := finally_block (model_usage st) name\<rparr>)"

text \<open>
  \<open>message_list = []\<close>, replaced by \<open>message_factory(client)\<close> when a factory was given.
\<close>

definition build_messages :: "request \<Rightarrow> string \<Rightarrow> exc + message list" where
  "build_messages req name =
     (case message_factory req of None \<Rightarrow> Inr [] | Some f \<Rightarrow> f name)"

text \<open>
  The body of \<open>for _attempt in range(max_attempts)\<close>. The \<open>RuntimeError\<close> of
  \<open>_select_model\<close> is raised before the \<open>try\<close> and leaves the function as it is. So does
  an exception of the message factory, which is called after the selection has added one
  to the in-flight penalty and before the \<open>try\<close>: no \<open>finally\<close> runs for it.
\<close>

definition loop_body :: "env \<Rightarrow> request \<Rightarrow> run \<Rightarrow> (control \<times> run) option" where
  "loop_body env req st =
     (case select_model (model_usage st) (Some (failed_models_this_request st)) of
        Inl err \<Rightarrow> Some (Raise (RuntimeError err), st)
      | Inr (name, table) \<Rightarrow>
          (case build_messages req name of
             Inl e \<Rightarrow>
               Some (Raise e, st\<lparr>model_usage := table, model_info := Some name,
                                 trace := trace st @ [Select name]\<rparr>)
           | Inr message_list \<Rightarrow>
               (case attempt_request_on_model env name req message_list
                       (compressed_messages st) (trace st @ [Select name]) (pending st) of
                  None \<Rightarrow> None
                | Some (result, tr, rest) \<Rightarrow>
                    Some (after_attempt name
                            (st\<lparr>model_usage := table, model_info := Some name,
                                trace := tr, pending := rest\<rparr>)
                            result))))"

text \<open>
  The loop and what follows it: \<open>raise last_exception\<close> when one was recorded, else the
  \<open>RuntimeError\<close> that all models failed.
\<close>

fun execute_loop ::
  "env \<Rightarrow> request \<Rightarrow> nat \<Rightarrow> run \<Rightarrow> ((exc + api_response \<times> string) \<times> run) option" where
  "execute_loop env req 0 st =
     Some (case last_exception st of
             Some e \<Rightarrow> Inl e
           | None \<Rightarrow> Inl (RuntimeError AllModelsFailed), st)"
| "execute_loop env req (Suc n) st =
     (case loop_body env req st of
        None \<Rightarrow> None
      | Some (Return response name, st') \<Rightarrow> Some (Inr (response, name), st')
      | Some (Raise e, st') \<Rightarrow> Some (Inl e, st')
      | Some (Continue, st') \<Rightarrow> execute_loop env req n st')"

definition execute_request ::
  "env \<Rightarrow> request \<Rightarrow> run \<Rightarrow> ((exc + api_response \<times> string) \<times> run) option" where
  "execute_request env req st =
     execute_loop env req (length (model_list st))
       (st\<lparr>failed_models_this_request := {}, last_exception := None,
           compressed_messages := None, model_info := None\<rparr>)"

text \<open>
  The requests \<open>get_embedding\<close> and \<open>generate_response_for_voice\<close> make: neither passes a
  message factory.
\<close>

definition embedding_request :: "string \<Rightarrow> request" where
  "embedding_request input =
     \<lparr>request_type = EMBEDDING, message_factory = None,
      embedding_input = Some input, audio_base64 = None\<rparr>"

definition voice_request :: "string \<Rightarrow> request" where
  "voice_request voice_base64 =
     \<lparr>request_type = AUDIO, message_factory = None,
      embedding_input = None, audio_base64 = Some voice_base64\<rparr>"

section \<open>\<open>_extract_reasoning\<close>\<close>

text \<open>
  Strings are lists of characters with code points below 256. \<open>str.strip()\<close> removes
  leading and trailing whitespace; below 256 the whitespace characters of Python are 9 to
  13, 28 to 32, 133 and 160.
\<close>

definition is_space :: "char \<Rightarrow> bool" where
  "is_space c = (let n = (of_char c :: nat) in
                   (9 \<le> n \<and> n \<le> 13) \<or> (28 \<le> n \<and> n \<le> 32) \<or> n = 133 \<or> n = 160)"

definition strip :: "string \<Rightarrow> string" where
  "strip s = rev (dropWhile is_space (rev (dropWhile is_space s)))"

definition think_open :: string where
  "think_open = ''<think>''"

definition think_close :: string where
  "think_close = ''</think>''"

text \<open>
  The pattern is \<^verbatim>\<open>(?:<think>)?(.*?)</think>\<close> with \<open>re.DOTALL\<close>. \<open>lazy_to_close\<close> is
  \<^verbatim>\<open>(.*?)</think>\<close> from the start of a string: the lazy star takes as few characters as
  it can; the result is the group and what follows the match.
\<close>

fun lazy_to_close :: "string \<Rightarrow> (string \<times> string) option" where
  "lazy_to_close [] = None"
| "lazy_to_close (c # cs) =
     (if take (length think_close) (c # cs) = think_close
      then Some ([], drop (length think_close) (c # cs))
      else map_option (\<lambda>(grp, rest). (c # grp, rest)) (lazy_to_close cs))"

text \<open>
  The whole pattern from the start of a string: the optional opening tag is greedy, so it
  is consumed when it is there and the rest then matches, and skipped otherwise.
\<close>

definition match_at_start :: "string \<Rightarrow> (string \<times> string) option" where
  "match_at_start s =
     (case (if take (length think_open) s = think_open
            then lazy_to_close (drop (length think_open) s) else None) of
        Some m \<Rightarrow> Some m
      | None \<Rightarrow> lazy_to_close s)"

text \<open>
  \<open>re.search\<close>: the match at the leftmost position that has one. The result is the text
  before the match, group 1, and the text after the match.
\<close>

fun re_search :: "string \<Rightarrow> (string \<times> string \<times> string) option" where
  "re_search [] = map_option (\<lambda>(grp, rest). ([], grp, rest)) (match_at_start [])"
| "re_search (c # cs) =
     (case match_at_start (c # cs) of
        Some (grp, rest) \<Rightarrow> Some ([], grp, rest)
      | None \<Rightarrow> map_option (\<lambda>(before, grp, rest). (c # before, grp, rest)) (re_search cs))"

text \<open>
  \<open>_extract_reasoning\<close>: \<open>re.sub\<close> with \<open>count=1\<close> deletes that same leftmost match, and
  both results are stripped.
\<close>

definition extract_reasoning :: "string \<Rightarrow> string \<times> string" where
  "extract_reasoning content =
     (case re_search content of
        None \<Rightarrow> (strip content, [])
      | Some (before, grp, rest) \<Rightarrow> (strip (before @ rest), strip grp))"

text \<open>The closing tag stands at position \<open>i\<close> of \<open>s\<close>.\<close>

definition closes_at :: "string \<Rightarrow> nat \<Rightarrow> bool" where
  "closes_at s i = (take (length think_close) (drop i s) = think_close)"

section \<open>\<open>_build_tool_options\<close>\<close>

text \<open>
  The tool descriptors are dicts of arbitrary Python values. The kinds of value the checks
  tell apart; \<open>'t\<close> stands for the enumeration \<open>ToolParamType\<close>, taken to be a plain
  enumeration (its members are neither strings nor subscriptable).
\<close>

datatype 't pyval =
    PyNone
  | PyBool bool
  | PyInt int
  | PyStr string
  | PyList "'t pyval list"
  | PyTuple "'t pyval list"
  | PyParamType 't

text \<open>What \<open>param[0]\<close> raises on an empty sequence and on a value without items.\<close>

datatype py_error = IndexError | TypeError

type_synonym 't tool_param = "string \<times> 't \<times> string \<times> bool \<times> 't pyval list option"

text \<open>
  A descriptor: the entries \<open>name\<close>, \<open>description\<close> and \<open>parameters\<close> when they are
  there; \<open>parameters\<close> is a list.
\<close>

record 't tool =
  tool_name :: "'t pyval option"
  tool_description :: "'t pyval option"
  tool_parameters :: "'t pyval list option"

text \<open>
  Modelled from the spec: \<open>ToolOptionBuilder\<close> and \<open>ToolOption\<close> (module
  \<open>payload_content.tool_option\<close>) are not among the sources. Construction of tool schemas
  is an external collaborator; the builder is taken to record name, description and the
  parameters added, and \<open>build\<close> to return them.
\<close>

record 't tool_option =
  option_name :: "'t pyval"
  option_description :: "'t pyval"
  option_params :: "'t tool_param list"

text \<open>
  The six \<open>assert\<close>s on one parameter, in their order, and the arguments \<open>add_param\<close> is
  then called with; \<open>None\<close> is the \<open>AssertionError\<close>.
\<close>

definition check_param :: "'t pyval \<Rightarrow> 't tool_param option" where
  "check_param param =
     (case param of
        PyTuple [p0, p1, p2, p3, p4] \<Rightarrow>
          (case p0 of
             PyStr name \<Rightarrow>
               (case p1 of
                  PyParamType param_type \<Rightarrow>
                    (case p2 of
                       PyStr description \<Rightarrow>
                         (case p3 of
                            PyBool required \<Rightarrow>
                              (case p4 of
                                 PyList enum_values \<Rightarrow>
                                   Some (name, param_type, description, required,
                                         Some enum_values)
                               | PyNone \<Rightarrow>
                                   Some (name, param_type, description, required, None)
                               | _ \<Rightarrow> None)
                          | _ \<Rightarrow> None)
                     | _ \<Rightarrow> None)
                | _ \<Rightarrow> None)
           | _ \<Rightarrow> None)
      | _ \<Rightarrow> None)"

text \<open>
  \<open>param[0]\<close>, which the handler of the \<open>AssertionError\<close> evaluates for its log message.
\<close>

fun first_item :: "'t pyval \<Rightarrow> py_error + 't pyval" where
  "first_item (PyTuple []) = Inl IndexError"
| "first_item (PyTuple (x # xs)) = Inr x"
| "first_item (PyList []) = Inl IndexError"
| "first_item (PyList (x # xs)) = Inr x"
| "first_item (PyStr []) = Inl IndexError"
| "first_item (PyStr (c # cs)) = Inr (PyStr [c])"
| "first_item v = Inl TypeError"

text \<open>
  The loop over the parameters of one tool. An exception raised inside the handler leaves
  \<open>_build_tool_options\<close>.
\<close>

fun add_params ::
  "'t pyval list \<Rightarrow> 't tool_param list \<Rightarrow> bool \<Rightarrow> py_error + ('t tool_param list \<times> bool)" where
  "add_params [] built tool_legal = Inr (built, tool_legal)"
| "add_params (param # rest) built tool_legal =
     (case check_param param of
        Some p \<Rightarrow> add_params rest (built @ [p]) tool_legal
      | None \<Rightarrow>
          (case first_item param of
             Inl e \<Rightarrow> Inl e
           | Inr shown \<Rightarrow> add_params rest built False))"

text \<open>\<open>tool.get("parameters", [])\<close>, and the option built from a tool and its parameters.\<close>

definition parameters_of :: "'t tool \<Rightarrow> 't pyval list" where
  "parameters_of tool = (case tool_parameters tool of None \<Rightarrow> [] | Some ps \<Rightarrow> ps)"

definition built_option :: "'t tool \<Rightarrow> 't tool_param list \<Rightarrow> 't tool_option" where
  "built_option tool params =
     \<lparr>option_name = (case tool_name tool of None \<Rightarrow> PyStr [] | Some v \<Rightarrow> v),
      option_description = (case tool_description tool of None \<Rightarrow> PyStr [] | Some v \<Rightarrow> v),
      option_params = params\<rparr>"

text \<open>The loop over the tools, and the function: \<open>not tools\<close> holds of \<open>None\<close> and of \<open>[]\<close>.\<close>

fun build_each :: "'t tool list \<Rightarrow> 't tool_option list \<Rightarrow> py_error + 't tool_option list" where
  "build_each [] tool_options = Inr tool_options"
| "build_each (tool # rest) tool_options =
     (case add_params (parameters_of tool) [] True of
        Inl e \<Rightarrow> Inl e
      | Inr (params, tool_legal) \<Rightarrow>
          build_each rest
            (if tool_legal then tool_options @ [built_option tool params] else tool_options))"

definition build_tool_options :: "'t tool list option \<Rightarrow> py_error + 't tool_option list option" where
  "build_tool_options tools =
     (case tools of
        None \<Rightarrow> Inr None
      | Some ts \<Rightarrow>
          if ts = [] then Inr None
          else (case build_each ts [] of
                  Inl e \<Rightarrow> Inl e
                | Inr tool_options \<Rightarrow>
                    Inr (if tool_options = [] then None else Some tool_options)))"

text \<open>
  A valid parameter, in words: a tuple of five items, of which the name and the
  description are text, the type is a \<open>ToolParamType\<close>, the required flag is a boolean and
  the enum values are a list or \<open>None\<close>. A valid tool has valid parameters only.
\<close>

fun is_str :: "'t pyval \<Rightarrow> bool" where
  "is_str (PyStr s) = True"
| "is_str v = False"

fun is_bool :: "'t pyval \<Rightarrow> bool" where
  "is_bool (PyBool b) = True"
| "is_bool v = False"

fun is_param_type :: "'t pyval \<Rightarrow> bool" where
  "is_param_type (PyParamType t) = True"
| "is_param_type v = False"

fun is_list_or_none :: "'t pyval \<Rightarrow> bool" where
  "is_list_or_none (PyList vs) = True"
| "is_list_or_none PyNone = True"
| "is_list_or_none v = False"

fun valid_param :: "'t pyval \<Rightarrow> bool" where
  "valid_param (PyTuple [name, param_type, description, required, enum_values]) =
     (is_str name \<and> is_param_type param_type \<and> is_str description \<and> is_bool required
      \<and> is_list_or_none enum_values)"
| "valid_param v = False"

definition valid_tool :: "'t tool \<Rightarrow> bool" where
  "valid_tool tool = list_all valid_param (parameters_of tool)"

text \<open>\<open>param[0]\<close> can be evaluated.\<close>

definition loggable :: "'t pyval \<Rightarrow> bool" where
  "loggable param = (case first_item param of Inl e \<Rightarrow> False | Inr shown \<Rightarrow> True)"

text \<open>The parameters of a tool that pass the checks, as handed to \<open>add_param\<close>.\<close>

definition accepted_params :: "'t tool \<Rightarrow> 't tool_param list" where
  "accepted_params tool = List.map_filter check_param (parameters_of tool)"

text \<open>Two tools for the concrete runs: one with a parameter of two items, one valid.\<close>

definition bad_tool :: "unit tool" where
  "bad_tool = \<lparr>tool_name = Some (PyStr ''search''), tool_description = Some (PyStr ''d''),
                tool_parameters = Some [PyTuple [PyStr ''query'', PyStr ''string'']]\<rparr>"

definition good_tool :: "unit tool" where
  "good_tool = \<lparr>tool_name = Some (PyStr ''clock''), tool_description = Some (PyStr ''d''),
                 tool_parameters =
                   Some [PyTuple [PyStr ''zone'', PyParamType (), PyStr ''time zone'',
                                  PyBool False, PyNone]]\<rparr>"

section \<open>Notions used in the statements\<close>

text \<open>
  The failures the retry loop treats as transient: a network error, an empty response, HTTP
  429, an HTTP status of 500 or more.
\<close>

fun transient :: "exc \<Rightarrow> bool" where
  "transient EmptyResponseException = True"
| "transient NetworkConnectionError = True"
| "transient (RespNotOkException status) = (status = 429 \<or> status \<ge> 500)"
| "transient e = False"

fun is_compress :: "event \<Rightarrow> bool" where
  "is_compress (Compress ms) = True"
| "is_compress ev = False"

fun is_select :: "event \<Rightarrow> bool" where
  "is_select (Select name) = True"
| "is_select ev = False"

text \<open>The third and the second component of a model's entry, when it has one.\<close>

definition in_flight :: "usage \<Rightarrow> string \<Rightarrow> int option" where
  "in_flight table name =
     map_option (\<lambda>(total_tokens, penalty, usage_penalty). usage_penalty) (map_of table name)"

definition failure_penalty :: "usage \<Rightarrow> string \<Rightarrow> int option" where
  "failure_penalty table name =
     map_option (\<lambda>(total_tokens, penalty, usage_penalty). penalty) (map_of table name)"

text \<open>No entry of the table has a negative in-flight penalty.\<close>

definition at_rest :: "usage \<Rightarrow> bool" where
  "at_rest table =
     list_all (\<lambda>(name, total_tokens, penalty, usage_penalty). 0 \<le> usage_penalty) table"

text \<open>
  The state after \<open>n\<close> rounds of the failover loop that each ended in the
  \<open>except ModelAttemptFailed\<close> clause without the HTTP 400 abort, when the next \<open>n\<close> rounds
  do end so.
\<close>

fun aborted_rounds :: "env \<Rightarrow> request \<Rightarrow> nat \<Rightarrow> run \<Rightarrow> run option" where
  "aborted_rounds env req 0 st = Some st"
| "aborted_rounds env req (Suc n) st =
     (case loop_body env req st of
        Some (Continue, st') \<Rightarrow> aborted_rounds env req n st'
      | _ \<Rightarrow> None)"

text \<open>A configuration and a completion request for the concrete runs below.\<close>

definition example_env :: env where
  "example_env = \<lparr>max_retry = (\<lambda>model. 3), retry_interval = (\<lambda>model. 10),
                  compress_messages = map (take 1)\<rparr>"

definition example_request :: request where
  "example_request = \<lparr>request_type = RESPONSE, message_factory = Some (\<lambda>model. Inr [''hello'']),
                      embedding_input = None, audio_base64 = None\<rparr>"

section \<open>Properties of the selection\<close>

lemma min_from_mem: "min_from key b xs \<in> insert b (set xs)"
  by (induction xs arbitrary: b) (auto split: if_splits)

lemma min_from_le_best: "key (min_from key b xs) \<le> key b"
proof (induction xs arbitrary: b)
  case Nil
  show ?case by simp
next
  case (Cons x xs)
  have "key (min_from key (if key x < key b then x else b) xs)
          \<le> key (if key x < key b then x else b)"
    by (rule Cons.IH)
  then show ?case by (simp split: if_splits)
qed

lemma min_from_least: "y \<in> insert b (set xs) \<Longrightarrow> key (min_from key b xs) \<le> key y"
proof (induction xs arbitrary: b)
  case Nil
  then show ?case by simp
next
  case (Cons x xs)
  let ?b = "if key x < key b then x else b"
  have best: "key (min_from key ?b xs) \<le> key ?b"
    by (rule min_from_le_best)
  show ?case
  proof (cases "y \<in> set xs")
    case True
    then have "key (min_from key ?b xs) \<le> key y"
      by (intro Cons.IH) simp
    then show ?thesis by simp
  next
    case False
    with Cons.prems have "y = x \<or> y = b" by auto
    with best show ?thesis by (auto split: if_splits)
  qed
qed

lemma map_of_available:
  "map_of (available_models mu ex) k = (if keeps ex k then map_of mu k else None)"
  unfolding available_models_def by (induction mu) auto

lemma keys_available:
  "fst ` set (available_models mu ex) = {k \<in> fst ` set mu. keeps ex k}"
  unfolding available_models_def by force

lemma keeps_Some: "keeps (Some X) k \<longleftrightarrow> k \<notin> X"
  by (auto simp: keeps_def)

lemma select_model_cases:
  assumes "map fst (available_models mu ex) = k # ks"
  shows "\<exists>name t p u. select_model mu ex = Inr (name, AList.update name (t, p, u + 1) mu)
           \<and> the (map_of mu name) = (t, p, u)
           \<and> name \<in> fst ` set mu \<and> keeps ex name
           \<and> (\<forall>y \<in> fst ` set mu. keeps ex y \<longrightarrow>
                  cost (the (map_of mu name)) \<le> cost (the (map_of mu y)))"
proof -
  let ?av = "available_models mu ex"
  let ?key = "\<lambda>k. cost (the (map_of ?av k))"
  let ?name = "min_from ?key k ks"
  have keys: "insert k (set ks) = {k \<in> fst ` set mu. keeps ex k}"
    using assms keys_available [of mu ex] by (metis list.simps(15) set_map)
  have mem: "?name \<in> {k \<in> fst ` set mu. keeps ex k}"
    using min_from_mem [of ?key k ks] keys by simp
  have key_eq: "?key y = cost (the (map_of mu y))" if "keeps ex y" for y
    using that by (simp add: map_of_available)
  have least: "cost (the (map_of mu ?name)) \<le> cost (the (map_of mu y))"
    if "y \<in> fst ` set mu" "keeps ex y" for y
  proof -
    from that keys have "y \<in> insert k (set ks)" by simp
    then have "?key ?name \<le> ?key y" by (rule min_from_least)
    with that mem show ?thesis by (simp add: key_eq)
  qed
  obtain t p u where tpu: "the (map_of mu ?name) = (t, p, u)"
    by (cases "the (map_of mu ?name)") auto
  have "select_model mu ex = Inr (?name, AList.update ?name (t, p, u + 1) mu)"
    using assms tpu by (simp add: select_model_def Let_def)
  with tpu mem least show ?thesis by auto
qed

text \<open>
  C4. Whenever the exclusion set leaves some configured endpoint, \<open>_select_model\<close> returns
  an endpoint of the table that is not excluded and whose cost
  \<open>total_tokens + penalty * 300 + usage_penalty * 1000\<close>, written out on the entries of the
  table, is least among the endpoints that are not excluded. With the two entries \<open>(100, 0, 0)\<close> and \<open>(50, 0, 0)\<close> the second one
  is the result whenever it is not excluded. The selection is a function of the table and
  the exclusion set.
\<close>

theorem select_model_least_cost:
  "(\<not> fst ` set table \<subseteq> X \<longrightarrow>
      (\<exists>name mu' total_tokens penalty usage_penalty.
          select_model table (Some X) = Inr (name, mu')
        \<and> name \<in> fst ` set table \<and> name \<notin> X
        \<and> map_of table name = Some (total_tokens, penalty, usage_penalty)
        \<and> (\<forall>k t p u. map_of table k = Some (t, p, u) \<and> k \<notin> X \<longrightarrow>
               total_tokens + penalty * 300 + usage_penalty * 1000
                 \<le> t + p * 300 + u * 1000)))
   \<and> (a \<noteq> b \<and> b \<notin> X \<longrightarrow>
      (\<exists>mu'. select_model [(a, (100, 0, 0)), (b, (50, 0, 0))] (Some X) = Inr (b, mu')))"
proof (intro conjI impI)
  assume "\<not> fst ` set table \<subseteq> X"
  then obtain y where y: "y \<in> fst ` set table" "keeps (Some X) y"
    by (auto simp: keeps_Some)
  then have "fst ` set (available_models table (Some X)) \<noteq> {}"
    by (auto simp: keys_available)
  then obtain k ks where "map fst (available_models table (Some X)) = k # ks"
    by (cases "available_models table (Some X)") auto
  from select_model_cases [OF this] obtain name t p u where
    all: "select_model table (Some X) = Inr (name, AList.update name (t, p, u + 1) table)
           \<and> the (map_of table name) = (t, p, u)
           \<and> name \<in> fst ` set table \<and> keeps (Some X) name
           \<and> (\<forall>y \<in> fst ` set table. keeps (Some X) y \<longrightarrow>
                  cost (the (map_of table name)) \<le> cost (the (map_of table y)))"
    by blast
  then have sel: "select_model table (Some X)
                    = Inr (name, AList.update name (t, p, u + 1) table)"
      and the: "the (map_of table name) = (t, p, u)"
      and mem: "name \<in> fst ` set table" "name \<notin> X"
      and least: "\<forall>y \<in> fst ` set table. y \<notin> X \<longrightarrow>
                    cost (the (map_of table name)) \<le> cost (the (map_of table y))"
    unfolding keeps_Some by blast+
  from mem(1) obtain v where "map_of table name = Some v"
    by (metis domD dom_map_of_conv_image_fst)
  with the have entry: "map_of table name = Some (t, p, u)" by simp
  have "t + p * 300 + u * 1000 \<le> t' + p' * 300 + u' * 1000"
    if "map_of table k = Some (t', p', u')" "k \<notin> X" for k t' p' u'
  proof -
    from that(1) have "k \<in> fst ` set table"
      by (metis domI dom_map_of_conv_image_fst)
    with least that(2) have "cost (the (map_of table name)) \<le> cost (the (map_of table k))"
      by blast
    with entry that(1) show ?thesis by (simp add: cost_def)
  qed
  with sel mem entry
  show "\<exists>name mu' total_tokens penalty usage_penalty.
          select_model table (Some X) = Inr (name, mu')
        \<and> name \<in> fst ` set table \<and> name \<notin> X
        \<and> map_of table name = Some (total_tokens, penalty, usage_penalty)
        \<and> (\<forall>k t p u. map_of table k = Some (t, p, u) \<and> k \<notin> X \<longrightarrow>
               total_tokens + penalty * 300 + usage_penalty * 1000
                 \<le> t + p * 300 + u * 1000)"
    by blast
next
  assume "a \<noteq> b \<and> b \<notin> X"
  then have "b \<noteq> a" "b \<notin> X" by auto
  then show "\<exists>mu'. select_model [(a, (100, 0, 0)), (b, (50, 0, 0))] (Some X) = Inr (b, mu')"
    by (simp add: select_model_def available_models_def keeps_def cost_def Let_def)
qed

theorem select_model_least_cost_witness:
  "\<not> fst ` set [(''a'', (0, 0, 1)), (''b'', (0, 3, 0)), (''c'', (950, 0, 0)), (''d'', (0, 0, 0))]
       \<subseteq> {''d''}
   \<and> ''a'' \<noteq> ''b'' \<and> ''b'' \<notin> {''d''}
   \<and> select_model [(''a'', (0, 0, 1)), (''b'', (0, 3, 0)), (''c'', (950, 0, 0)), (''d'', (0, 0, 0))]
         (Some {''d''})
       = Inr (''b'', [(''a'', (0, 0, 1)), (''b'', (0, 3, 1)), (''c'', (950, 0, 0)),
                      (''d'', (0, 0, 0))])
   \<and> (0::int) + 3 * 300 + 0 * 1000 \<le> 0 + 0 * 300 + 1 * 1000
   \<and> (0::int) + 3 * 300 + 0 * 1000 \<le> 950 + 0 * 300 + 0 * 1000
   \<and> select_model [(''a'', (0, 1, 0)), (''b'', (299, 0, 0))] (Some {''d''})
       = Inr (''b'', [(''a'', (0, 1, 0)), (''b'', (299, 0, 1))])
   \<and> select_model [(''a'', (100, 0, 0)), (''b'', (50, 0, 0))] (Some {''d''})
       = Inr (''b'', [(''a'', (100, 0, 0)), (''b'', (50, 0, 1))])"
  using select_model_least_cost
    [of "[(''a'', (0, 0, 1)), (''b'', (0, 3, 0)), (''c'', (950, 0, 0)), (''d'', (0, 0, 0))]"
        "{''d''}" "''a''" "''b''"]
  by (simp add: select_model_def available_models_def keeps_def cost_def Let_def)

section \<open>Properties of the retry loop\<close>

lemma except_clauses_transient:
  "transient e \<Longrightarrow>
   except_clauses env model msgs retry cm tr e = retry_or_fail env model retry cm tr e"
  by (cases e) auto

lemma except_clauses_Done:
  assumes "except_clauses env model msgs retry cm tr e = Done result tr'"
  shows "tr' = tr \<and> (result = Inl CancelledError \<or>
           (\<exists>f. f \<noteq> NeverAttempted \<and> result = Inl (ModelAttemptFailed f (Some e))))"
  using assms by (cases e) (auto simp: retry_or_fail_def Let_def split: if_splits)

lemma except_clauses_Again:
  assumes "except_clauses env model msgs retry cm tr e = Again retry' cm' tr'" and "0 < retry"
  shows "0 < retry'"
  using assms by (cases e) (auto simp: retry_or_fail_def Let_def split: if_splits)

lemma except_clauses_Again_empty:
  assumes "except_clauses env model [] retry cm tr e = Again retry' cm' tr'"
  shows "cm' = cm \<and> tr' = tr @ [Sleep (retry_interval env model)]"
  using assms by (cases e) (auto simp: retry_or_fail_def Let_def split: if_splits)

lemma retry_loop_budget_spent:
  assumes "0 < retry"
    and "retry_loop env model req msgs retry cm tr script
           = Some (Inl (ModelAttemptFailed f orig), tr', rest)"
  shows "f \<noteq> NeverAttempted \<and> orig \<noteq> None"
  using assms
proof (induction script arbitrary: retry cm tr)
  case Nil
  then show ?case by (auto split: sum.splits)
next
  case (Cons out script)
  show ?case
  proof (cases "client_call model req (payload cm msgs)")
    case (Inl e)
    with Cons.prems show ?thesis by auto
  next
    case (Inr call)
    show ?thesis
    proof (cases out)
      case (Returns response)
      with Inr Cons.prems show ?thesis by auto
    next
      case (Raises e)
      show ?thesis
      proof (cases "except_clauses env model msgs retry cm (tr @ [call]) e")
        case (Again retry' cm' tr'')
        with Cons.prems Inr Raises
        have run: "retry_loop env model req msgs retry' cm' tr'' script
                     = Some (Inl (ModelAttemptFailed f orig), tr', rest)"
          by simp
        from Again Cons.prems(1) have "0 < retry'" by (rule except_clauses_Again)
        then show ?thesis using run by (rule Cons.IH)
      next
        case (Done result tr'')
        from except_clauses_Done [OF this] Done Cons.prems Inr Raises
        show ?thesis by auto
      qed
    qed
  qed
qed

lemma retry_loop_empty_no_compress:
  assumes "retry_loop env model req [] retry cm tr script = Some (result, tr', rest)"
  shows "filter is_compress tr' = filter is_compress tr"
  using assms
proof (induction script arbitrary: retry cm tr)
  case Nil
  then show ?case by (auto split: sum.splits if_splits)
next
  case (Cons out script)
  show ?case
  proof (cases "retry > 0")
    case False
    with Cons.prems show ?thesis by simp
  next
    case True
    show ?thesis
    proof (cases "client_call model req (payload cm [])")
      case (Inl e)
      with True Cons.prems show ?thesis by auto
    next
      case (Inr call)
      then have call: "\<not> is_compress call"
        by (auto simp: client_call_def split: request_type.splits option.splits)
      show ?thesis
      proof (cases out)
        case (Returns response)
        with True Inr Cons.prems call show ?thesis by auto
      next
        case (Raises e)
        show ?thesis
        proof (cases "except_clauses env model [] retry cm (tr @ [call]) e")
          case (Again retry' cm' tr'')
          with Cons.prems True Inr Raises
          have "retry_loop env model req [] retry' cm' tr'' script = Some (result, tr', rest)"
            by simp
          then have "filter is_compress tr' = filter is_compress tr''"
            by (rule Cons.IH)
          with except_clauses_Again_empty [OF Again] call show ?thesis by simp
        next
          case (Done r tr'')
          from except_clauses_Done [OF this] Done Cons.prems True Inr Raises call
          show ?thesis by auto
        qed
      qed
    qed
  qed
qed

text \<open>
  C5. When the awaited call raises a transient failure (network error, empty response, HTTP
  429, status 500 or more): with more than one retry left the loop goes on with one retry
  less, after sleeping the provider's fixed \<open>retry_interval\<close>, and with the same
  \<open>compressed_messages\<close>, hence the same payload; with one retry left the attempt raises
  \<open>ModelAttemptFailed\<close> for exhausted retries, wrapping the failure. With \<open>max_retry = 3\<close>
  and a client that fails transiently twice and then answers, the attempt returns the
  answer after exactly three calls and two sleeps.
\<close>

theorem transient_retry:
  assumes "transient e" and "client_call model req (payload cm msgs) = Inr call"
  shows "(1 < retry \<longrightarrow>
            retry_loop env model req msgs retry cm tr (Raises e # rest)
              = retry_loop env model req msgs (retry - 1) cm
                  (tr @ [call, Sleep (retry_interval env model)]) rest)
       \<and> retry_loop env model req msgs 1 cm tr (Raises e # rest)
              = Some (Inl (ModelAttemptFailed RetryExhausted (Some e)), tr @ [call], rest)
       \<and> (transient e' \<and> max_retry env model = 3 \<longrightarrow>
            attempt_request_on_model env model req msgs cm tr
                (Raises e # Raises e' # Returns response # rest)
              = Some (Inr response,
                      tr @ [call, Sleep (retry_interval env model),
                            call, Sleep (retry_interval env model), call], rest))"
  using assms
  by (simp add: attempt_request_on_model_def except_clauses_transient retry_or_fail_def Let_def)

theorem transient_retry_witness:
  "transient NetworkConnectionError
   \<and> client_call ''a'' example_request (payload None [''hello'']) = Inr (GetResponse ''a'' [''hello''])
   \<and> transient (RespNotOkException 503) \<and> max_retry example_env ''a'' = 3
   \<and> retry_loop example_env ''a'' example_request [''hello''] 2 None []
         [Raises NetworkConnectionError, Raises EmptyResponseException]
       = Some (Inl (ModelAttemptFailed RetryExhausted (Some EmptyResponseException)),
               [GetResponse ''a'' [''hello''], Sleep 10, GetResponse ''a'' [''hello'']], [])
   \<and> attempt_request_on_model example_env ''a'' example_request [''hello''] None []
         [Raises NetworkConnectionError, Raises (RespNotOkException 503),
          Returns (APIResponse ''ok'')]
       = Some (Inr (APIResponse ''ok''),
               [GetResponse ''a'' [''hello''], Sleep 10, GetResponse ''a'' [''hello''], Sleep 10,
                GetResponse ''a'' [''hello'']], [])"
proof -
  have h1: "transient NetworkConnectionError" by simp
  have h2: "client_call ''a'' example_request (payload None [''hello''])
              = Inr (GetResponse ''a'' [''hello''])"
    by (simp add: client_call_def payload_def truthy_def example_request_def)
  have h3: "transient (RespNotOkException 503) \<and> max_retry example_env ''a'' = 3"
    by (simp add: example_env_def)
  have h4: "(1::int) < 2" by simp
  from transient_retry [OF h1 h2, where retry = 2 and env = example_env and tr = "[]"
      and rest = "[Raises EmptyResponseException]"]
    transient_retry [OF h1 h2, where env = example_env and tr = "[]"
      and rest = "[]" and e' = "RespNotOkException 503" and response = "APIResponse ''ok''"]
    h1 h2 h3 h4
  show ?thesis
    by (simp add: client_call_def payload_def truthy_def example_request_def example_env_def
          retry_or_fail_def)
qed

text \<open>
  C8. When the provider's \<open>max_retry\<close> is zero or less, the attempt raises the
  never-attempted \<open>ModelAttemptFailed\<close> with the trace and the pending client outcomes
  untouched: no client call, no sleep. A \<open>ModelAttemptFailed\<close> leaving an attempt is the
  never-attempted one exactly when \<open>max_retry\<close> is zero or less, and exactly then it
  carries no original exception; exhausted retries and hard errors always carry one.
\<close>

theorem never_attempted:
  "(max_retry env model \<le> 0 \<longrightarrow>
      attempt_request_on_model env model req msgs cm tr script
        = Some (Inl (ModelAttemptFailed NeverAttempted None), tr, script))
   \<and> (attempt_request_on_model env model req msgs cm tr script
         = Some (Inl (ModelAttemptFailed f orig), tr', rest) \<longrightarrow>
       (f = NeverAttempted) = (max_retry env model \<le> 0)
       \<and> (orig = None) = (max_retry env model \<le> 0))"
proof (intro conjI impI)
  assume "max_retry env model \<le> 0"
  then show "attempt_request_on_model env model req msgs cm tr script
        = Some (Inl (ModelAttemptFailed NeverAttempted None), tr, script)"
    by (cases script) (simp_all add: attempt_request_on_model_def)
next
  assume a: "attempt_request_on_model env model req msgs cm tr script
         = Some (Inl (ModelAttemptFailed f orig), tr', rest)"
  show "(f = NeverAttempted) = (max_retry env model \<le> 0)"
  proof (cases "max_retry env model \<le> 0")
    case True
    with a show ?thesis by (cases script) (simp_all add: attempt_request_on_model_def)
  next
    case False
    with a retry_loop_budget_spent [of "max_retry env model" env model req msgs cm tr script f orig tr' rest]
    show ?thesis by (simp add: attempt_request_on_model_def)
  qed
  show "(orig = None) = (max_retry env model \<le> 0)"
  proof (cases "max_retry env model \<le> 0")
    case True
    with a show ?thesis by (cases script) (simp_all add: attempt_request_on_model_def)
  next
    case False
    with a retry_loop_budget_spent [of "max_retry env model" env model req msgs cm tr script f orig tr' rest]
    show ?thesis by (simp add: attempt_request_on_model_def)
  qed
qed

theorem never_attempted_witness:
  "max_retry (example_env\<lparr>max_retry := (\<lambda>model. 0)\<rparr>) ''a'' \<le> 0
   \<and> attempt_request_on_model (example_env\<lparr>max_retry := (\<lambda>model. 0)\<rparr>) ''a'' example_request
         [''hello''] None [] [Returns (APIResponse ''ok'')]
       = Some (Inl (ModelAttemptFailed NeverAttempted None), [], [Returns (APIResponse ''ok'')])"
proof -
  have h: "max_retry (example_env\<lparr>max_retry := (\<lambda>model. 0)\<rparr>) ''a'' \<le> 0" by simp
  from never_attempted [of "example_env\<lparr>max_retry := (\<lambda>model. 0)\<rparr>" "''a''" example_request
      "[''hello'']" None "[]" "[Returns (APIResponse ''ok'')]" NeverAttempted None "[]"
      "[Returns (APIResponse ''ok'')]"] h
  show ?thesis by simp
qed

section \<open>Properties of the failover loop\<close>

lemma select_model_Inr:
  assumes "select_model mu ex = Inr (name, table)"
  shows "\<exists>t p u. map_of mu name = Some (t, p, u) \<and> table = AList.update name (t, p, u + 1) mu
           \<and> keeps ex name"
proof (cases "map fst (available_models mu ex)")
  case Nil
  with assms show ?thesis by (simp add: select_model_def)
next
  case (Cons k ks)
  from select_model_cases [OF this] assms
  obtain t p u where *: "table = AList.update name (t, p, u + 1) mu"
    "the (map_of mu name) = (t, p, u)" "name \<in> fst ` set mu" "keeps ex name"
    by auto
  from *(3) obtain v where "map_of mu name = Some v"
    by (metis domD dom_map_of_conv_image_fst)
  with * show ?thesis by auto
qed

lemma at_rest_update:
  "at_rest table \<Longrightarrow> 0 \<le> u \<Longrightarrow> at_rest (AList.update name (t, p, u) table)"
  unfolding at_rest_def by (induction table) auto

lemma at_rest_lookup:
  "at_rest table \<Longrightarrow> map_of table name = Some (t, p, u) \<Longrightarrow> 0 \<le> u"
  unfolding at_rest_def by (auto simp: list_all_iff dest!: map_of_SomeD)

lemma at_rest_init: "at_rest (init_usage models)"
proof -
  have "at_rest table \<Longrightarrow>
        at_rest (foldl (\<lambda>d model. AList.update model (0, 0, 0) d) table models)" for table
    by (induction models arbitrary: table) (simp_all add: at_rest_update)
  then show ?thesis by (simp add: init_usage_def at_rest_def)
qed

lemma finally_after_select:
  assumes "map_of mu name = Some (t, p, u)" and "0 \<le> u"
  shows "finally_block (AList.update name (t, p, u + 1) mu) name = mu"
    and "finally_block (add_penalty (AList.update name (t, p, u + 1) mu) name) name
           = AList.update name (t, p + 1, u) mu"
  using assms by (simp_all add: finally_block_def add_penalty_def update_conv' update_triv)

lemma after_attempt_fields:
  "after_attempt name st result = (ctl, st') \<Longrightarrow>
     trace st' = trace st \<and> pending st' = pending st \<and> model_list st' = model_list st
     \<and> model_info st' = model_info st \<and> compressed_messages st' = compressed_messages st"
  by (cases "(name, st, result)" rule: after_attempt.cases) (auto simp: Let_def)

lemma after_attempt_failed:
  "after_attempt name st (Inl (ModelAttemptFailed f orig)) = (ctl, st') \<Longrightarrow>
     model_usage st' = finally_block (add_penalty (model_usage st) name) name
     \<and> failed_models_this_request st' = insert name (failed_models_this_request st)
     \<and> last_exception st' = Some (case orig of Some e \<Rightarrow> e | None \<Rightarrow> ModelAttemptFailed f orig)
     \<and> ctl = (if orig = Some (RespNotOkException 400) then Raise (RespNotOkException 400)
              else Continue)"
  by (auto simp: Let_def split: option.splits)

lemma after_attempt_not_failed:
  "after_attempt name st result = (ctl, st') \<Longrightarrow>
   \<forall>f orig. result \<noteq> Inl (ModelAttemptFailed f orig) \<Longrightarrow>
     model_usage st' = finally_block (model_usage st) name
     \<and> failed_models_this_request st' = failed_models_this_request st
     \<and> last_exception st' = last_exception st
     \<and> ctl \<noteq> Continue"
  by (cases "(name, st, result)" rule: after_attempt.cases) (auto simp: Let_def)

lemma loop_body_cases:
  assumes "loop_body env req st = Some (ctl, st')"
  obtains (no_model) err where
      "select_model (model_usage st) (Some (failed_models_this_request st)) = Inl err"
      "ctl = Raise (RuntimeError err)" "st' = st"
  | (factory_raised) name table e where
      "select_model (model_usage st) (Some (failed_models_this_request st)) = Inr (name, table)"
      "build_messages req name = Inl e" "ctl = Raise e"
      "st' = st\<lparr>model_usage := table, model_info := Some name,
                   trace := trace st @ [Select name]\<rparr>"
  | (attempted) name table result tr rest message_list where
      "select_model (model_usage st) (Some (failed_models_this_request st)) = Inr (name, table)"
      "attempt_request_on_model env name req message_list
         (compressed_messages st) (trace st @ [Select name]) (pending st)
         = Some (result, tr, rest)"
      "after_attempt name
         (st\<lparr>model_usage := table, model_info := Some name, trace := tr, pending := rest\<rparr>)
         result = (ctl, st')"
      "build_messages req name = Inr message_list"
  using assms unfolding loop_body_def
  by (auto split: sum.splits option.splits prod.splits)

lemma loop_body_in_flight:
  assumes rest: "at_rest (model_usage st)" and body: "loop_body env req st = Some (ctl, st')"
    and returns: "\<And>name. \<exists>message_list. build_messages req name = Inr message_list"
  shows "in_flight (model_usage st') = in_flight (model_usage st) \<and> at_rest (model_usage st')"
  using body
proof (cases rule: loop_body_cases)
  case (no_model err)
  with rest show ?thesis by simp
next
  case (factory_raised name table e)
  with returns [of name] show ?thesis by simp
next
  case (attempted name table result tr rest' message_list)
  from select_model_Inr [OF attempted(1)] obtain t p u where
    sel: "map_of (model_usage st) name = Some (t, p, u)"
      "table = AList.update name (t, p, u + 1) (model_usage st)"
    by auto
  from at_rest_lookup [OF rest sel(1)] have u: "0 \<le> u" .
  show ?thesis
  proof (cases "\<exists>f orig. result = Inl (ModelAttemptFailed f orig)")
    case True
    then obtain f orig where res: "result = Inl (ModelAttemptFailed f orig)" by auto
    from after_attempt_failed [OF attempted(3) [unfolded res]]
    have "model_usage st' = finally_block (add_penalty table name) name"
      by simp
    with sel u have eq: "model_usage st' = AList.update name (t, p + 1, u) (model_usage st)"
      by (simp add: finally_after_select)
    have "in_flight (model_usage st') = in_flight (model_usage st)"
      using sel(1) by (auto simp: eq in_flight_def update_conv')
    moreover have "at_rest (model_usage st')"
      unfolding eq using rest u by (rule at_rest_update)
    ultimately show ?thesis by simp
  next
    case False
    then have "\<forall>f orig. result \<noteq> Inl (ModelAttemptFailed f orig)" by simp
    from after_attempt_not_failed [OF attempted(3) this]
    have "model_usage st' = finally_block table name"
      by simp
    with sel u have "model_usage st' = model_usage st"
      by (simp add: finally_after_select)
    with rest show ?thesis by simp
  qed
qed

lemma execute_loop_in_flight:
  assumes "at_rest (model_usage st)" and "execute_loop env req n st = Some (result, st')"
    and returns: "\<And>name. \<exists>message_list. build_messages req name = Inr message_list"
  shows "in_flight (model_usage st') = in_flight (model_usage st) \<and> at_rest (model_usage st')"
  using assms(1,2)
proof (induction n arbitrary: st)
  case 0
  then show ?case by auto
next
  case (Suc n)
  from Suc.prems(2) obtain ctl st1 where body: "loop_body env req st = Some (ctl, st1)"
    by (auto split: option.splits)
  from loop_body_in_flight [OF Suc.prems(1) body returns]
  have keep: "in_flight (model_usage st1) = in_flight (model_usage st)" "at_rest (model_usage st1)"
    by auto
  show ?case
  proof (cases ctl)
    case Continue
    with body Suc.prems(2) have "execute_loop env req n st1 = Some (result, st')" by simp
    from Suc.IH [OF keep(2) this] keep show ?thesis by simp
  next
    case (Return response name)
    with body Suc.prems(2) keep show ?thesis by simp
  next
    case (Raise e)
    with body Suc.prems(2) keep show ?thesis by simp
  qed
qed

lemmas run_defs = new_request_def init_usage_def select_model_def available_models_def
  keeps_def cost_def attempt_request_on_model_def client_call_def payload_def truthy_def
  retry_or_fail_def add_penalty_def finally_block_def build_messages_def loop_body_def
  execute_request_def example_env_def example_request_def Let_def

text \<open>
  What does hold of the in-flight penalty: the table of a fresh \<open>LLMRequest\<close> has no
  negative one, and when the message factory returns for every client, a round of the
  failover loop and a whole request leave every in-flight penalty at its value from before,
  however the \<open>try\<close> statement is left.
\<close>

lemma in_flight_restored_when_factory_returns:
  assumes "\<And>name. \<exists>message_list. build_messages req name = Inr message_list"
    and "at_rest (model_usage st)"
  shows "at_rest (init_usage models)"
    and "loop_body env req st = Some (ctl, st1) \<Longrightarrow>
           in_flight (model_usage st1) = in_flight (model_usage st) \<and> at_rest (model_usage st1)"
    and "execute_request env req st = Some (result, st2) \<Longrightarrow>
           in_flight (model_usage st2) = in_flight (model_usage st) \<and> at_rest (model_usage st2)"
proof -
  show "at_rest (init_usage models)" by (rule at_rest_init)
next
  assume "loop_body env req st = Some (ctl, st1)"
  with assms(2) show "in_flight (model_usage st1) = in_flight (model_usage st)
                       \<and> at_rest (model_usage st1)"
    using assms(1) by (rule loop_body_in_flight)
next
  assume a: "execute_request env req st = Some (result, st2)"
  let ?st = "st\<lparr>failed_models_this_request := {}, last_exception := None,
                 compressed_messages := None, model_info := None\<rparr>"
  from a assms(2) have "at_rest (model_usage ?st)"
    and "execute_loop env req (length (model_list st)) ?st = Some (result, st2)"
    by (simp_all add: execute_request_def)
  from execute_loop_in_flight [OF this assms(1)]
  show "in_flight (model_usage st2) = in_flight (model_usage st) \<and> at_rest (model_usage st2)"
    by simp
qed

text \<open>
  C2 fails on the code. \<open>_select_model\<close> adds one to the in-flight penalty of the endpoint
  it returns, and \<open>message_factory(client)\<close> is called next, before the \<open>try\<close> whose
  \<open>finally\<close> takes the one off again. When the factory raises, the round and the request
  end by that exception with the penalty of the selected endpoint one above its value
  from before the selection.
\<close>

theorem in_flight_penalty_leaked:
  "\<exists>st'. execute_request example_env
            (example_request\<lparr>message_factory := Some (\<lambda>model. Inl OtherException)\<rparr>)
            (new_request [''a'', ''b''] [])
          = Some (Inl OtherException, st')
     \<and> model_info st' = Some ''a''
     \<and> in_flight (model_usage (new_request [''a'', ''b''] [])) ''a'' = Some 0
     \<and> in_flight (model_usage st') ''a'' = Some 1
     \<and> trace st' = [Select ''a'']"
  by (simp add: run_defs in_flight_def numeral_2_eq_2)

lemma loop_body_no_compress:
  assumes "message_factory req = None" and "loop_body env req st = Some (ctl, st')"
  shows "filter is_compress (trace st') = filter is_compress (trace st)"
  using assms(2)
proof (cases rule: loop_body_cases)
  case (no_model err)
  then show ?thesis by simp
next
  case (factory_raised name table e)
  then show ?thesis by simp
next
  case (attempted name table result tr rest message_list)
  from attempted(4) assms(1) have "message_list = []"
    by (simp add: build_messages_def)
  with attempted(2)
  have "retry_loop env name req [] (max_retry env name) (compressed_messages st)
          (trace st @ [Select name]) (pending st) = Some (result, tr, rest)"
    by (simp add: attempt_request_on_model_def)
  then have "filter is_compress tr = filter is_compress (trace st @ [Select name])"
    by (rule retry_loop_empty_no_compress)
  with after_attempt_fields [OF attempted(3)] show ?thesis by simp
qed

lemma execute_loop_no_compress:
  assumes "message_factory req = None" and "execute_loop env req n st = Some (result, st')"
  shows "filter is_compress (trace st') = filter is_compress (trace st)"
  using assms(2)
proof (induction n arbitrary: st)
  case 0
  then show ?case by auto
next
  case (Suc n)
  from Suc.prems obtain ctl st1 where body: "loop_body env req st = Some (ctl, st1)"
    by (auto split: option.splits)
  from loop_body_no_compress [OF assms(1) body]
  have keep: "filter is_compress (trace st1) = filter is_compress (trace st)" .
  show ?case
  proof (cases ctl)
    case Continue
    with body Suc.prems have "execute_loop env req n st1 = Some (result, st')" by simp
    from Suc.IH [OF this] keep show ?thesis by simp
  next
    case (Return response name)
    with body Suc.prems keep show ?thesis by simp
  next
    case (Raise e)
    with body Suc.prems keep show ?thesis by simp
  qed
qed

text \<open>
  C10. With an empty message list, an HTTP 413 from the awaited call ends the attempt at
  once with the hard-error \<open>ModelAttemptFailed\<close> wrapping it: nothing is compressed, and
  this holds whatever the number of retries left. A request without a message factory
  gives every attempt the empty message list, so the whole request never calls the
  compressor; \<open>get_embedding\<close> and \<open>generate_response_for_voice\<close> make such requests.
\<close>

theorem no_compression_without_messages:
  "(0 < retry_remain \<and> client_call model req (payload cm []) = Inr call \<longrightarrow>
      retry_loop env model req [] retry_remain cm tr (Raises (RespNotOkException 413) # rest)
        = Some (Inl (ModelAttemptFailed HardError (Some (RespNotOkException 413))),
                tr @ [call], rest))
   \<and> (message_factory req = None \<and> execute_request env req st = Some (result, st') \<longrightarrow>
        filter is_compress (trace st') = filter is_compress (trace st))
   \<and> message_factory (embedding_request input) = None
   \<and> message_factory (voice_request voice_base64) = None"
proof (intro conjI impI)
  assume "0 < retry_remain \<and> client_call model req (payload cm []) = Inr call"
  then show "retry_loop env model req [] retry_remain cm tr (Raises (RespNotOkException 413) # rest)
        = Some (Inl (ModelAttemptFailed HardError (Some (RespNotOkException 413))),
                tr @ [call], rest)"
    by simp
next
  assume a: "message_factory req = None \<and> execute_request env req st = Some (result, st')"
  then have "execute_loop env req (length (model_list st))
       (st\<lparr>failed_models_this_request := {}, last_exception := None,
           compressed_messages := None, model_info := None\<rparr>) = Some (result, st')"
    by (simp add: execute_request_def)
  from execute_loop_no_compress [OF _ this] a
  show "filter is_compress (trace st') = filter is_compress (trace st)" by simp
qed (simp_all add: embedding_request_def voice_request_def)

theorem no_compression_without_messages_witness:
  "(0::int) < 3
   \<and> client_call ''a'' (embedding_request ''text'') (payload None []) = Inr (GetEmbedding ''a'' ''text'')
   \<and> message_factory (embedding_request ''text'') = None
   \<and> execute_request example_env (embedding_request ''text'')
        (new_request [''a''] [Raises (RespNotOkException 413)])
      = Some (Inl (RespNotOkException 413),
           \<lparr>model_list = [''a''], model_usage = [(''a'', 0, 1, 0)],
            failed_models_this_request = {''a''},
            last_exception = Some (RespNotOkException 413), compressed_messages = None,
            model_info = Some ''a'',
            trace = [Select ''a'', GetEmbedding ''a'' ''text''], pending = []\<rparr>)
   \<and> filter is_compress [Select ''a'', GetEmbedding ''a'' ''text''] = []"
proof -
  let ?st = "new_request [''a''] [Raises (RespNotOkException 413)]"
  let ?st' = "\<lparr>model_list = [''a''], model_usage = [(''a'', 0, 1, 0)],
            failed_models_this_request = {''a''},
            last_exception = Some (RespNotOkException 413), compressed_messages = None,
            model_info = Some ''a'',
            trace = [Select ''a'', GetEmbedding ''a'' ''text''], pending = []\<rparr>"
  have h1: "client_call ''a'' (embedding_request ''text'') (payload None [])
              = Inr (GetEmbedding ''a'' ''text'')"
    by (simp add: client_call_def embedding_request_def)
  have h2: "message_factory (embedding_request ''text'') = None"
    by (simp add: embedding_request_def)
  have h3: "execute_request example_env (embedding_request ''text'') ?st
              = Some (Inl (RespNotOkException 413), ?st')"
    by (simp add: run_defs embedding_request_def)
  from no_compression_without_messages [where retry_remain = 3 and model = "''a''"
      and req = "embedding_request ''text''" and cm = None and env = example_env
      and st = ?st and st' = ?st' and result = "Inl (RespNotOkException 413)"] h1 h2 h3
  have "filter is_compress (trace ?st') = filter is_compress (trace ?st)" by simp
  with h1 h2 h3 show ?thesis by (simp add: new_request_def)
qed

text \<open>
  C1 fails on the code. \<open>_execute_request\<close> hands its own \<open>compressed_messages\<close> to every
  attempt but nothing ever assigns to it: the attempt assigns to its parameter only. With
  two endpoints that both answer HTTP 413, once to the original and once to the
  compressed payload, the compressor is called once per endpoint, twice in the request.
\<close>

theorem compressor_called_twice:
  "\<exists>st'. execute_request (example_env\<lparr>max_retry := (\<lambda>model. 1)\<rparr>) example_request
            (new_request [''a'', ''b''] (replicate 4 (Raises (RespNotOkException 413))))
          = Some (Inl (RespNotOkException 413), st')
     \<and> trace st' = [Select ''a'', GetResponse ''a'' [''hello''], Compress [''hello''],
                     GetResponse ''a'' [''h''],
                     Select ''b'', GetResponse ''b'' [''hello''], Compress [''hello''],
                     GetResponse ''b'' [''h'']]
     \<and> length (filter is_compress (trace st')) = 2"
  by (simp add: run_defs numeral_eq_Suc)




lemma add_penalty_map:
  "map_of table name = Some (t, p, u) \<Longrightarrow>
   map_of (add_penalty table name) = (map_of table)(name \<mapsto> (t, p + 1, u))"
  by (simp add: add_penalty_def update_conv')

lemma finally_block_map:
  "map_of table name = Some (t, p, u) \<Longrightarrow>
   \<exists>u'. map_of (finally_block table name) = (map_of table)(name \<mapsto> (t, p, u'))"
proof (cases "0 < u")
  case True
  assume "map_of table name = Some (t, p, u)"
  with True have "map_of (finally_block table name)
                    = (map_of table)(name \<mapsto> (t, p, u - 1))"
    by (simp add: finally_block_def update_conv')
  then show ?thesis ..
next
  case False
  assume m: "map_of table name = Some (t, p, u)"
  with False have "finally_block table name = table"
    by (simp add: finally_block_def)
  moreover from m have "(map_of table)(name \<mapsto> (t, p, u)) = map_of table"
    by (rule map_upd_triv)
  ultimately have "map_of (finally_block table name) = (map_of table)(name \<mapsto> (t, p, u))"
    by simp
  then show ?thesis ..
qed

lemma except_clauses_Again_event:
  assumes "except_clauses env model msgs retry cm tr e = Again retry' cm' tr'"
  shows "\<exists>ev. tr' = tr @ [ev] \<and> \<not> is_select ev"
  using assms by (cases e) (auto simp: retry_or_fail_def Let_def split: if_splits)

lemma retry_loop_no_select:
  assumes "retry_loop env model req msgs retry cm tr script = Some (result, tr', rest)"
  shows "filter is_select tr' = filter is_select tr"
  using assms
proof (induction script arbitrary: retry cm tr)
  case Nil
  then show ?case by (auto split: sum.splits if_splits)
next
  case (Cons out script)
  show ?case
  proof (cases "retry > 0")
    case False
    with Cons.prems show ?thesis by simp
  next
    case True
    show ?thesis
    proof (cases "client_call model req (payload cm msgs)")
      case (Inl e)
      with True Cons.prems show ?thesis by auto
    next
      case (Inr call)
      then have call: "\<not> is_select call"
        by (auto simp: client_call_def split: request_type.splits option.splits)
      show ?thesis
      proof (cases out)
        case (Returns response)
        with True Inr Cons.prems call show ?thesis by auto
      next
        case (Raises e)
        show ?thesis
        proof (cases "except_clauses env model msgs retry cm (tr @ [call]) e")
          case (Again retry' cm' tr'')
          with Cons.prems True Inr Raises
          have "retry_loop env model req msgs retry' cm' tr'' script = Some (result, tr', rest)"
            by simp
          then have "filter is_select tr' = filter is_select tr''"
            by (rule Cons.IH)
          with except_clauses_Again_event [OF Again] call show ?thesis by auto
        next
          case (Done r tr'')
          from except_clauses_Done [OF this] Done Cons.prems True Inr Raises call
          show ?thesis by auto
        qed
      qed
    qed
  qed
qed

lemma loop_body_Continue:
  assumes "loop_body env req st = Some (Continue, st')"
  shows "\<exists>name t p u u'. map_of (model_usage st) name = Some (t, p, u)
           \<and> name \<notin> failed_models_this_request st
           \<and> failed_models_this_request st' = insert name (failed_models_this_request st)
           \<and> map_of (model_usage st') = (map_of (model_usage st))(name \<mapsto> (t, p + 1, u'))
           \<and> model_list st' = model_list st
           \<and> filter is_select (trace st') = filter is_select (trace st) @ [Select name]
           \<and> last_exception st' \<noteq> None"
  using assms
proof (cases rule: loop_body_cases)
  case (no_model err)
  then show ?thesis by simp
next
  case (factory_raised name table e)
  then show ?thesis by simp
next
  case (attempted name table result tr rest message_list)
  from select_model_Inr [OF attempted(1)] obtain t p u where
    sel: "map_of (model_usage st) name = Some (t, p, u)"
      "table = AList.update name (t, p, u + 1) (model_usage st)"
      "name \<notin> failed_models_this_request st"
    by (auto simp: keeps_Some)
  have "\<exists>f orig. result = Inl (ModelAttemptFailed f orig)"
    using after_attempt_not_failed [OF attempted(3)] by blast
  then obtain f orig where res: "result = Inl (ModelAttemptFailed f orig)" by auto
  from after_attempt_failed [OF attempted(3) [unfolded res]]
  have usage: "model_usage st' = finally_block (add_penalty table name) name"
    and failed: "failed_models_this_request st'
                   = insert name (failed_models_this_request st)"
    and last: "last_exception st' \<noteq> None"
    by simp_all
  have "map_of table name = Some (t, p, u + 1)"
    by (simp add: sel(2) update_conv')
  then have pen: "map_of (add_penalty table name) = (map_of table)(name \<mapsto> (t, p + 1, u + 1))"
    by (rule add_penalty_map)
  then have "map_of (add_penalty table name) name = Some (t, p + 1, u + 1)" by simp
  from finally_block_map [OF this] obtain u' where
    "map_of (finally_block (add_penalty table name) name)
       = (map_of (add_penalty table name))(name \<mapsto> (t, p + 1, u'))" ..
  with pen usage have table': "map_of (model_usage st')
       = (map_of (model_usage st))(name \<mapsto> (t, p + 1, u'))"
    by (simp add: sel(2) update_conv')
  from attempted(2) have "filter is_select tr = filter is_select (trace st @ [Select name])"
    unfolding attempt_request_on_model_def by (rule retry_loop_no_select)
  with after_attempt_fields [OF attempted(3)]
  have tr: "filter is_select (trace st') = filter is_select (trace st) @ [Select name]"
    and ml: "model_list st' = model_list st"
    by simp_all
  from sel(1,3) failed table' ml tr last show ?thesis by blast
qed

lemma aborted_rounds_effect:
  assumes "aborted_rounds env req n st = Some st'"
  shows "\<exists>S. finite S \<and> card S = n \<and> S \<subseteq> dom (map_of (model_usage st))
           \<and> S \<inter> failed_models_this_request st = {}
           \<and> failed_models_this_request st' = failed_models_this_request st \<union> S
           \<and> dom (map_of (model_usage st')) = dom (map_of (model_usage st))
           \<and> (\<forall>name. failure_penalty (model_usage st') name
                 = (if name \<in> S
                    then map_option (\<lambda>p. p + 1) (failure_penalty (model_usage st) name)
                    else failure_penalty (model_usage st) name))
           \<and> model_list st' = model_list st
           \<and> length (filter is_select (trace st')) = length (filter is_select (trace st)) + n
           \<and> (0 < n \<longrightarrow> last_exception st' \<noteq> None) \<and> (n = 0 \<longrightarrow> st' = st)"
  using assms
proof (induction n arbitrary: st)
  case 0
  then show ?case by (intro exI [of _ "{}"]) simp
next
  case (Suc n)
  from Suc.prems obtain st1 where body: "loop_body env req st = Some (Continue, st1)"
    and rounds: "aborted_rounds env req n st1 = Some st'"
    by (auto split: option.splits prod.splits control.splits)
  from loop_body_Continue [OF body] obtain name t p u u' where
    b: "map_of (model_usage st) name = Some (t, p, u)"
       "name \<notin> failed_models_this_request st"
       "failed_models_this_request st1 = insert name (failed_models_this_request st)"
       "map_of (model_usage st1) = (map_of (model_usage st))(name \<mapsto> (t, p + 1, u'))"
       "model_list st1 = model_list st"
       "filter is_select (trace st1) = filter is_select (trace st) @ [Select name]"
       "last_exception st1 \<noteq> None"
    by blast
  from Suc.IH [OF rounds] obtain S where
    all: "finite S \<and> card S = n \<and> S \<subseteq> dom (map_of (model_usage st1))
           \<and> S \<inter> failed_models_this_request st1 = {}
           \<and> failed_models_this_request st' = failed_models_this_request st1 \<union> S
           \<and> dom (map_of (model_usage st')) = dom (map_of (model_usage st1))
           \<and> (\<forall>name. failure_penalty (model_usage st') name
                 = (if name \<in> S
                    then map_option (\<lambda>p. p + 1) (failure_penalty (model_usage st1) name)
                    else failure_penalty (model_usage st1) name))
           \<and> model_list st' = model_list st1
           \<and> length (filter is_select (trace st')) = length (filter is_select (trace st1)) + n
           \<and> (0 < n \<longrightarrow> last_exception st' \<noteq> None) \<and> (n = 0 \<longrightarrow> st' = st1)"
    by (rule exE)
  have s: "finite S" "card S = n" "S \<subseteq> dom (map_of (model_usage st1))"
       "S \<inter> failed_models_this_request st1 = {}"
       "failed_models_this_request st' = failed_models_this_request st1 \<union> S"
       "dom (map_of (model_usage st')) = dom (map_of (model_usage st1))"
       "\<forall>name. failure_penalty (model_usage st') name
                 = (if name \<in> S
                    then map_option (\<lambda>p. p + 1) (failure_penalty (model_usage st1) name)
                    else failure_penalty (model_usage st1) name)"
       "model_list st' = model_list st1"
       "length (filter is_select (trace st')) = length (filter is_select (trace st1)) + n"
       "0 < n \<longrightarrow> last_exception st' \<noteq> None" "n = 0 \<longrightarrow> st' = st1"
    using all by blast+
  have notin: "name \<notin> S" using s(4) b(3) by auto
  have dom1: "dom (map_of (model_usage st1)) = dom (map_of (model_usage st))"
    using b(1) by (auto simp: b(4))
  have fp1: "failure_penalty (model_usage st1) x
               = (if x = name then map_option (\<lambda>p. p + 1) (failure_penalty (model_usage st) x)
                  else failure_penalty (model_usage st) x)" for x
    using b(1) by (simp add: failure_penalty_def b(4))
  let ?S = "insert name S"
  have "finite ?S" using s(1) by simp
  moreover have "card ?S = Suc n" using s(1,2) notin by simp
  moreover have "?S \<subseteq> dom (map_of (model_usage st))" using s(3) dom1 b(1) by auto
  moreover have "?S \<inter> failed_models_this_request st = {}" using s(4) b(2,3) by auto
  moreover have "failed_models_this_request st' = failed_models_this_request st \<union> ?S"
    using s(5) b(3) by auto
  moreover have "dom (map_of (model_usage st')) = dom (map_of (model_usage st))"
    using s(6) dom1 by simp
  moreover have "\<forall>x. failure_penalty (model_usage st') x
                 = (if x \<in> ?S
                    then map_option (\<lambda>p. p + 1) (failure_penalty (model_usage st) x)
                    else failure_penalty (model_usage st) x)"
    using s(7) fp1 notin by auto
  moreover have "model_list st' = model_list st" using s(8) b(5) by simp
  moreover have "length (filter is_select (trace st'))
                   = length (filter is_select (trace st)) + Suc n"
    using s(9) b(6) by simp
  moreover have "0 < Suc n \<longrightarrow> last_exception st' \<noteq> None"
    using s(10,11) b(7) by (cases n) auto
  moreover have "Suc n = 0 \<longrightarrow> st' = st" by simp
  ultimately show ?case by (intro exI [of _ ?S] conjI)
qed

lemma aborted_rounds_execute:
  "aborted_rounds env req n st = Some st' \<Longrightarrow>
   execute_loop env req n st = execute_loop env req 0 st'"
proof (induction n arbitrary: st)
  case 0
  then show ?case by simp
next
  case (Suc n)
  from Suc.prems obtain st1 where body: "loop_body env req st = Some (Continue, st1)"
    and rounds: "aborted_rounds env req n st1 = Some st'"
    by (auto split: option.splits prod.splits control.splits)
  from Suc.IH [OF rounds] body show ?case by simp
qed



lemma loop_body_Continue_attempt:
  assumes "loop_body env req st = Some (Continue, st')"
  shows "\<exists>name table message_list f orig tr rest.
           select_model (model_usage st) (Some (failed_models_this_request st)) = Inr (name, table)
           \<and> build_messages req name = Inr message_list
           \<and> attempt_request_on_model env name req message_list
                (compressed_messages st) (trace st @ [Select name]) (pending st)
               = Some (Inl (ModelAttemptFailed f orig), tr, rest)
           \<and> orig \<noteq> Some (RespNotOkException 400)
           \<and> last_exception st'
               = Some (case orig of Some e \<Rightarrow> e | None \<Rightarrow> ModelAttemptFailed f orig)"
  using assms
proof (cases rule: loop_body_cases)
  case (no_model err)
  then show ?thesis by simp
next
  case (factory_raised name table e)
  then show ?thesis by simp
next
  case (attempted name table result tr rest message_list)
  have "\<exists>f orig. result = Inl (ModelAttemptFailed f orig)"
    using after_attempt_not_failed [OF attempted(3)] by blast
  then obtain f orig where res: "result = Inl (ModelAttemptFailed f orig)" by auto
  from after_attempt_failed [OF attempted(3) [unfolded res]]
  have "orig \<noteq> Some (RespNotOkException 400)"
    and "last_exception st'
           = Some (case orig of Some e \<Rightarrow> e | None \<Rightarrow> ModelAttemptFailed f orig)"
    by (auto split: if_splits)
  with attempted(1,2,4) res show ?thesis by blast
qed

lemma aborted_rounds_last:
  "aborted_rounds env req (Suc n) st = Some st' \<Longrightarrow>
   \<exists>mid. aborted_rounds env req n st = Some mid \<and> loop_body env req mid = Some (Continue, st')"
proof (induction n arbitrary: st)
  case 0
  then show ?case by (auto split: option.splits prod.splits control.splits)
next
  case (Suc n)
  from Suc.prems obtain st1 where body: "loop_body env req st = Some (Continue, st1)"
    and rounds: "aborted_rounds env req (Suc n) st1 = Some st'"
    by (auto split: option.splits prod.splits control.splits)
  from Suc.IH [OF rounds] obtain mid where
    "aborted_rounds env req n st1 = Some mid" "loop_body env req mid = Some (Continue, st')"
    by blast
  with body show ?case by simp
qed

text \<open>
  C7. Let the table hold the configured endpoints and let each of the first \<open>N\<close> rounds
  of a request, \<open>N\<close> the number of configured endpoints, end with the attempt raising
  \<open>ModelAttemptFailed\<close> for a failure other than HTTP 400 (\<open>aborted_rounds\<close>; by
  \<open>loop_body_Continue_attempt\<close> that is what such a round is). Then the request makes
  exactly these \<open>N\<close> selections, its exclusion set ends as the set of all configured
  endpoints, the failure penalty of each of them has grown by exactly one, and the request
  raises the failure recorded last, or the \<open>RuntimeError\<close> that all models failed when
  none was recorded, which is the case exactly when no endpoint is configured. The failure
  recorded last is that of the last round: when \<open>N > 0\<close>, the state \<open>mid\<close> after \<open>N - 1\<close>
  rounds is followed by the attempt on the endpoint selected there, which raises
  \<open>ModelAttemptFailed\<close>, and the request raises the original exception of that very
  failure, or the failure itself when it has none.
\<close>

theorem all_endpoints_fail:
  assumes keys: "fst ` set (model_usage st) = set (model_list st)"
    and rounds: "aborted_rounds env req (length (model_list st))
                   (st\<lparr>failed_models_this_request := {}, last_exception := None,
                       compressed_messages := None, model_info := None\<rparr>) = Some st'"
  shows "execute_request env req st
           = Some (Inl (case last_exception st' of
                          Some e \<Rightarrow> e
                        | None \<Rightarrow> RuntimeError AllModelsFailed), st')
       \<and> failed_models_this_request st' = set (model_list st)
       \<and> (\<forall>name \<in> set (model_list st).
             failure_penalty (model_usage st') name
               = map_option (\<lambda>p. p + 1) (failure_penalty (model_usage st) name))
       \<and> length (filter is_select (trace st'))
           = length (filter is_select (trace st)) + length (model_list st)
       \<and> (last_exception st' = None \<longleftrightarrow> model_list st = [])
       \<and> (model_list st \<noteq> [] \<longrightarrow>
            (\<exists>mid name table message_list f orig tr rest.
                aborted_rounds env req (length (model_list st) - 1)
                   (st\<lparr>failed_models_this_request := {}, last_exception := None,
                       compressed_messages := None, model_info := None\<rparr>) = Some mid
              \<and> select_model (model_usage mid) (Some (failed_models_this_request mid))
                  = Inr (name, table)
              \<and> build_messages req name = Inr message_list
              \<and> attempt_request_on_model env name req message_list (compressed_messages mid)
                    (trace mid @ [Select name]) (pending mid)
                  = Some (Inl (ModelAttemptFailed f orig), tr, rest)
              \<and> execute_request env req st
                  = Some (Inl (case orig of
                                 Some e \<Rightarrow> e
                               | None \<Rightarrow> ModelAttemptFailed f orig), st')))
       \<and> (model_list st = [] \<longrightarrow>
            execute_request env req st = Some (Inl (RuntimeError AllModelsFailed), st'))"
proof -
  let ?st = "st\<lparr>failed_models_this_request := {}, last_exception := None,
                 compressed_messages := None, model_info := None\<rparr>"
  let ?n = "length (model_list st)"
  from aborted_rounds_effect [OF rounds] obtain S where
    all: "finite S \<and> card S = ?n \<and> S \<subseteq> dom (map_of (model_usage ?st))
           \<and> S \<inter> failed_models_this_request ?st = {}
           \<and> failed_models_this_request st' = failed_models_this_request ?st \<union> S
           \<and> dom (map_of (model_usage st')) = dom (map_of (model_usage ?st))
           \<and> (\<forall>name. failure_penalty (model_usage st') name
                 = (if name \<in> S
                    then map_option (\<lambda>p. p + 1) (failure_penalty (model_usage ?st) name)
                    else failure_penalty (model_usage ?st) name))
           \<and> model_list st' = model_list ?st
           \<and> length (filter is_select (trace st')) = length (filter is_select (trace ?st)) + ?n
           \<and> (0 < ?n \<longrightarrow> last_exception st' \<noteq> None) \<and> (?n = 0 \<longrightarrow> st' = ?st)"
    by (rule exE)
  have s: "finite S" "card S = ?n" "S \<subseteq> dom (map_of (model_usage st))"
      "failed_models_this_request st' = S"
      "\<forall>name. failure_penalty (model_usage st') name
                 = (if name \<in> S
                    then map_option (\<lambda>p. p + 1) (failure_penalty (model_usage st) name)
                    else failure_penalty (model_usage st) name)"
      "length (filter is_select (trace st')) = length (filter is_select (trace st)) + ?n"
      "0 < ?n \<longrightarrow> last_exception st' \<noteq> None" "?n = 0 \<longrightarrow> st' = ?st"
    using all by simp_all
  have "dom (map_of (model_usage st)) = set (model_list st)"
    using keys by (simp add: dom_map_of_conv_image_fst)
  with s(3) have sub: "S \<subseteq> set (model_list st)" by simp
  have "card (set (model_list st)) \<le> card S"
    using s(2) card_length [of "model_list st"] by simp
  with sub have S: "S = set (model_list st)"
    by (intro card_seteq) simp_all
  have "execute_request env req st = execute_loop env req ?n ?st"
    by (simp add: execute_request_def)
  also have "\<dots> = execute_loop env req 0 st'"
    using rounds by (rule aborted_rounds_execute)
  finally have exec: "execute_request env req st
           = Some (Inl (case last_exception st' of
                          Some e \<Rightarrow> e
                        | None \<Rightarrow> RuntimeError AllModelsFailed), st')"
    by (simp split: option.splits)
  have last: "last_exception st' = None \<longleftrightarrow> model_list st = []"
  proof (cases "model_list st = []")
    case True
    with s(8) have "st' = ?st" by simp
    then have "last_exception st' = None" by simp
    with True show ?thesis by simp
  next
    case False
    with s(7) show ?thesis by simp
  qed
  have none: "model_list st = [] \<longrightarrow>
            execute_request env req st = Some (Inl (RuntimeError AllModelsFailed), st')"
  proof
    assume "model_list st = []"
    with last have "last_exception st' = None" by simp
    with exec show "execute_request env req st
                      = Some (Inl (RuntimeError AllModelsFailed), st')"
      by simp
  qed
  have final: "model_list st \<noteq> [] \<longrightarrow>
            (\<exists>mid name table message_list f orig tr rest.
                aborted_rounds env req (?n - 1) ?st = Some mid
              \<and> select_model (model_usage mid) (Some (failed_models_this_request mid))
                  = Inr (name, table)
              \<and> build_messages req name = Inr message_list
              \<and> attempt_request_on_model env name req message_list (compressed_messages mid)
                    (trace mid @ [Select name]) (pending mid)
                  = Some (Inl (ModelAttemptFailed f orig), tr, rest)
              \<and> execute_request env req st
                  = Some (Inl (case orig of
                                 Some e \<Rightarrow> e
                               | None \<Rightarrow> ModelAttemptFailed f orig), st'))"
  proof
    assume "model_list st \<noteq> []"
    then have n: "?n = Suc (?n - 1)" by simp
    from rounds have "aborted_rounds env req (Suc (?n - 1)) ?st = Some st'"
      using n by simp
    from aborted_rounds_last [OF this] obtain mid where
      mid: "aborted_rounds env req (?n - 1) ?st = Some mid"
        "loop_body env req mid = Some (Continue, st')"
      by blast
    from loop_body_Continue_attempt [OF mid(2)] obtain name table message_list f orig tr rest
      where att: "select_model (model_usage mid) (Some (failed_models_this_request mid))
                    = Inr (name, table)"
        "build_messages req name = Inr message_list"
        "attempt_request_on_model env name req message_list (compressed_messages mid)
            (trace mid @ [Select name]) (pending mid)
          = Some (Inl (ModelAttemptFailed f orig), tr, rest)"
        "last_exception st'
           = Some (case orig of Some e \<Rightarrow> e | None \<Rightarrow> ModelAttemptFailed f orig)"
      by blast
    from exec att(4) have "execute_request env req st
                  = Some (Inl (case orig of
                                 Some e \<Rightarrow> e
                               | None \<Rightarrow> ModelAttemptFailed f orig), st')"
      by simp
    with mid(1) att(1,2,3) show "\<exists>mid name table message_list f orig tr rest.
                aborted_rounds env req (?n - 1) ?st = Some mid
              \<and> select_model (model_usage mid) (Some (failed_models_this_request mid))
                  = Inr (name, table)
              \<and> build_messages req name = Inr message_list
              \<and> attempt_request_on_model env name req message_list (compressed_messages mid)
                    (trace mid @ [Select name]) (pending mid)
                  = Some (Inl (ModelAttemptFailed f orig), tr, rest)
              \<and> execute_request env req st
                  = Some (Inl (case orig of
                                 Some e \<Rightarrow> e
                               | None \<Rightarrow> ModelAttemptFailed f orig), st')"
      by blast
  qed
  from exec s(4,5,6) S last have "execute_request env req st
           = Some (Inl (case last_exception st' of
                          Some e \<Rightarrow> e
                        | None \<Rightarrow> RuntimeError AllModelsFailed), st')
       \<and> failed_models_this_request st' = set (model_list st)
       \<and> (\<forall>name \<in> set (model_list st).
             failure_penalty (model_usage st') name
               = map_option (\<lambda>p. p + 1) (failure_penalty (model_usage st) name))
       \<and> length (filter is_select (trace st'))
           = length (filter is_select (trace st)) + length (model_list st)
       \<and> (last_exception st' = None \<longleftrightarrow> model_list st = [])"
    by simp
  with final none show ?thesis by blast
qed

theorem all_endpoints_fail_witness:
  "fst ` set (model_usage (new_request [''a'', ''b'']
       [Raises OtherException, Raises NetworkConnectionError]))
     = set (model_list (new_request [''a'', ''b'']
       [Raises OtherException, Raises NetworkConnectionError]))
   \<and> aborted_rounds (example_env\<lparr>max_retry := (\<lambda>model. 1)\<rparr>) example_request 2
        (new_request [''a'', ''b''] [Raises OtherException, Raises NetworkConnectionError])
      = Some \<lparr>model_list = [''a'', ''b''], model_usage = [(''a'', 0, 1, 0), (''b'', 0, 1, 0)],
              failed_models_this_request = {''a'', ''b''},
              last_exception = Some NetworkConnectionError, compressed_messages = None,
              model_info = Some ''b'',
              trace = [Select ''a'', GetResponse ''a'' [''hello''],
                       Select ''b'', GetResponse ''b'' [''hello'']],
              pending = []\<rparr>
   \<and> execute_request (example_env\<lparr>max_retry := (\<lambda>model. 1)\<rparr>) example_request
        (new_request [''a'', ''b''] [Raises OtherException, Raises NetworkConnectionError])
      = Some (Inl NetworkConnectionError,
             \<lparr>model_list = [''a'', ''b''], model_usage = [(''a'', 0, 1, 0), (''b'', 0, 1, 0)],
              failed_models_this_request = {''a'', ''b''},
              last_exception = Some NetworkConnectionError, compressed_messages = None,
              model_info = Some ''b'',
              trace = [Select ''a'', GetResponse ''a'' [''hello''],
                       Select ''b'', GetResponse ''b'' [''hello'']],
              pending = []\<rparr>)"
proof -
  let ?st = "new_request [''a'', ''b'']
       [Raises OtherException, Raises NetworkConnectionError]"
  let ?st' = "\<lparr>model_list = [''a'', ''b''], model_usage = [(''a'', 0, 1, 0), (''b'', 0, 1, 0)],
              failed_models_this_request = {''a'', ''b''},
              last_exception = Some NetworkConnectionError, compressed_messages = None,
              model_info = Some ''b'',
              trace = [Select ''a'', GetResponse ''a'' [''hello''],
                       Select ''b'', GetResponse ''b'' [''hello'']],
              pending = []\<rparr>"
  have keys: "fst ` set (model_usage ?st) = set (model_list ?st)"
    by (simp add: new_request_def init_usage_def)
  have same: "?st\<lparr>failed_models_this_request := {}, last_exception := None,
               compressed_messages := None, model_info := None\<rparr> = ?st"
    by (simp add: new_request_def)
  have len: "length (model_list ?st) = Suc (Suc 0)"
    by (simp add: new_request_def)
  have rounds: "aborted_rounds (example_env\<lparr>max_retry := (\<lambda>model. 1)\<rparr>) example_request (Suc (Suc 0)) ?st = Some ?st'"
    by (simp add: run_defs insert_commute)
  from all_endpoints_fail [where st = ?st and env = "example_env\<lparr>max_retry := (\<lambda>model. 1)\<rparr>" and req = example_request
      and st' = ?st', OF keys] rounds
  have "execute_request (example_env\<lparr>max_retry := (\<lambda>model. 1)\<rparr>) example_request ?st = Some (Inl NetworkConnectionError, ?st')"
    unfolding same len by simp
  with keys rounds show ?thesis by (simp add: numeral_2_eq_2)
qed

section \<open>Properties of the reasoning extraction\<close>

lemma len_open: "length think_open = 7"
  by (simp add: think_open_def)

lemma len_close: "length think_close = 8"
  by (simp add: think_close_def)

lemma lazy_to_close_none:
  "(\<forall>i. \<not> closes_at s i) \<Longrightarrow> lazy_to_close s = None"
proof (induction s)
  case Nil
  show ?case by simp
next
  case (Cons c cs)
  from Cons.prems have "\<not> closes_at (c # cs) 0" by blast
  then have here: "take (length think_close) (c # cs) \<noteq> think_close"
    by (simp add: closes_at_def)
  have "\<not> closes_at cs i" for i
    using Cons.prems [rule_format, of "Suc i"] by (simp add: closes_at_def)
  then have "lazy_to_close cs = None" by (intro Cons.IH) simp
  with here show ?case by simp
qed

lemma lazy_to_close_first:
  "(\<forall>i < length g. \<not> closes_at (g @ think_close @ r) i) \<Longrightarrow>
   lazy_to_close (g @ think_close @ r) = Some (g, r)"
proof (induction g)
  case Nil
  show ?case by (simp add: think_close_def)
next
  case (Cons c g)
  from Cons.prems have "\<not> closes_at ((c # g) @ think_close @ r) 0" by simp
  then have here: "take (length think_close) (c # g @ think_close @ r) \<noteq> think_close"
    by (simp add: closes_at_def)
  have "\<not> closes_at (g @ think_close @ r) i" if "i < length g" for i
    using Cons.prems [rule_format, of "Suc i"] that by (simp add: closes_at_def)
  then have "lazy_to_close (g @ think_close @ r) = Some (g, r)" by (intro Cons.IH) simp
  with here show ?case by simp
qed

lemma open_not_before_close:
  assumes "take (length think_open) (pre @ think_close @ post) = think_open"
  shows "take (length think_open) pre = think_open"
proof (cases "length think_open \<le> length pre")
  case True
  with assms show ?thesis by simp
next
  case False
  let ?s = "pre @ think_close @ post"
  let ?k = "length pre"
  from False have k: "?k < 7" by (simp add: len_open)
  have at: "?s ! ?k = CHR ''<''" "?s ! Suc ?k = CHR ''/''"
    by (simp_all add: nth_append think_close_def)
  have op: "?s ! j = think_open ! j" if "j < 7" for j
  proof -
    have "take (length think_open) ?s ! j = ?s ! j"
      unfolding len_open using that by (rule nth_take)
    with assms show ?thesis by simp
  qed
  from k consider "?k = 6" | "Suc ?k < 7" by linarith
  then show ?thesis
  proof cases
    case 1
    with op [of 6] at(1) show ?thesis by (simp add: think_open_def)
  next
    case 2
    then have "?k = 0 \<or> ?k = 1 \<or> ?k = 2 \<or> ?k = 3 \<or> ?k = 4 \<or> ?k = 5" by linarith
    with op [of "Suc ?k"] 2 at(2) show ?thesis
      by (auto simp: think_open_def)
  qed
qed

lemma match_at_start_first:
  assumes "\<forall>i < length pre. \<not> closes_at (pre @ think_close @ post) i"
  shows "match_at_start (pre @ think_close @ post)
           = Some (if take (length think_open) pre = think_open
                   then drop (length think_open) pre else pre, post)"
proof (cases "take (length think_open) pre = think_open")
  case True
  define inner where "inner = drop (length think_open) pre"
  have pre: "pre = think_open @ inner"
    using True by (metis append_take_drop_id inner_def)
  have "\<not> closes_at (inner @ think_close @ post) i" if "i < length inner" for i
  proof -
    from that have "i + length think_open < length pre" by (simp add: pre)
    with assms have n: "\<not> closes_at (pre @ think_close @ post) (i + length think_open)"
      by blast
    have d: "drop (length think_open) (pre @ think_close @ post)
                     = inner @ think_close @ post"
      by (simp add: pre)
    have "drop (i + length think_open) (pre @ think_close @ post)
                 = drop i (drop (length think_open) (pre @ think_close @ post))"
      by (simp only: drop_drop)
    then have eq: "drop (i + length think_open) (pre @ think_close @ post)
                 = drop i (inner @ think_close @ post)"
      by (simp only: d)
    from n show ?thesis unfolding closes_at_def eq .
  qed
  then have l: "lazy_to_close (inner @ think_close @ post) = Some (inner, post)"
    by (intro lazy_to_close_first) simp
  have t: "take (length think_open) (pre @ think_close @ post) = think_open"
    by (simp add: pre)
  have d: "drop (length think_open) (pre @ think_close @ post) = inner @ think_close @ post"
    by (simp add: pre)
  have "match_at_start (pre @ think_close @ post) = Some (inner, post)"
    unfolding match_at_start_def t d l by simp
  with True show ?thesis by (simp add: inner_def)
next
  case False
  with open_not_before_close
  have "take (length think_open) (pre @ think_close @ post) \<noteq> think_open" by blast
  with False lazy_to_close_first [OF assms] show ?thesis
    by (simp add: match_at_start_def)
qed

lemma match_at_start_none:
  assumes "\<forall>i. \<not> closes_at s i"
  shows "match_at_start s = None"
proof -
  have "\<not> closes_at (drop (length think_open) s) i" for i
    using assms [rule_format, of "i + length think_open"]
    by (simp add: closes_at_def add.commute)
  then have "lazy_to_close (drop (length think_open) s) = None"
    by (intro lazy_to_close_none) simp
  with lazy_to_close_none [OF assms] show ?thesis by (simp add: match_at_start_def)
qed

lemma re_search_none:
  "(\<forall>i. \<not> closes_at s i) \<Longrightarrow> re_search s = None"
proof (induction s)
  case Nil
  then show ?case by (simp add: match_at_start_none)
next
  case (Cons c cs)
  have "\<not> closes_at cs i" for i
    using Cons.prems [rule_format, of "Suc i"] by (simp add: closes_at_def)
  then have "re_search cs = None" by (intro Cons.IH) simp
  with match_at_start_none [OF Cons.prems] show ?case by simp
qed

lemma re_search_first:
  assumes "\<forall>i < length pre. \<not> closes_at (pre @ think_close @ post) i"
  shows "re_search (pre @ think_close @ post)
           = Some ([], if take (length think_open) pre = think_open
                       then drop (length think_open) pre else pre, post)"
proof -
  obtain c cs where s: "pre @ think_close @ post = c # cs"
    by (cases "pre @ think_close @ post") (simp_all add: think_close_def)
  from match_at_start_first [OF assms] show ?thesis
    unfolding s by simp
qed

text \<open>
  C3, as the code has it. Everything before the first closing tag is the reasoning, less
  an opening tag at the very start of the input; so
  \<open>abc<think>reasoning</think>def\<close> gives the content \<open>def\<close> and the reasoning
  \<open>abc<think>reasoning\<close>. An input without a closing tag gives its content stripped of
  surrounding whitespace and the empty reasoning. Only the text up to and including the
  first closing tag is taken out; what follows it, later blocks included, is the content,
  stripped.
\<close>

theorem extract_reasoning_first_close:
  "extract_reasoning ''abc<think>reasoning</think>def'' = (''def'', ''abc<think>reasoning'')
   \<and> ((\<forall>i. \<not> closes_at content i) \<longrightarrow> extract_reasoning content = (strip content, []))
   \<and> ((\<forall>i < length pre. \<not> closes_at (pre @ ''</think>'' @ post) i) \<longrightarrow>
        extract_reasoning (pre @ ''</think>'' @ post)
          = (strip post, strip (if take 7 pre = ''<think>'' then drop 7 pre else pre)))"
proof (intro conjI impI)
  show "extract_reasoning ''abc<think>reasoning</think>def'' = (''def'', ''abc<think>reasoning'')"
    by (simp add: extract_reasoning_def match_at_start_def think_open_def think_close_def
          strip_def is_space_def)
next
  assume "\<forall>i. \<not> closes_at content i"
  then show "extract_reasoning content = (strip content, [])"
    by (simp add: extract_reasoning_def re_search_none)
next
  assume "\<forall>i < length pre. \<not> closes_at (pre @ ''</think>'' @ post) i"
  then have "\<forall>i < length pre. \<not> closes_at (pre @ think_close @ post) i"
    by (simp add: think_close_def)
  from re_search_first [OF this, unfolded len_open]
  have "re_search (pre @ ''</think>'' @ post)
          = Some ([], if take 7 pre = ''<think>'' then drop 7 pre else pre, post)"
    unfolding think_close_def think_open_def .
  then show "extract_reasoning (pre @ ''</think>'' @ post)
          = (strip post, strip (if take 7 pre = ''<think>'' then drop 7 pre else pre))"
    unfolding extract_reasoning_def by simp
qed

theorem extract_reasoning_first_close_witness:
  "(\<forall>i. \<not> closes_at '' hi <think> '' i)
   \<and> extract_reasoning '' hi <think> '' = (''hi <think>'', [])
   \<and> extract_reasoning ''<think> a </think> b <think>c</think>d''
       = (''b <think>c</think>d'', ''a'')"
proof -
  have h1: "\<forall>i. \<not> closes_at '' hi <think> '' i"
    by (simp add: closes_at_def think_close_def re_search_none 
          drop_Cons' take_Cons')
  have h2: "\<forall>i < length ''<think> a ''.
         \<not> closes_at (''<think> a '' @ ''</think>'' @ '' b <think>c</think>d'') i"
    by (simp add: closes_at_def think_close_def All_less_Suc)
  from extract_reasoning_first_close [of "'' hi <think> ''" "''<think> a ''"
      "'' b <think>c</think>d''"] h1 h2
  show ?thesis by (simp add: strip_def is_space_def)
qed

text \<open>
  C3 as stated fails: on \<open>abc<think>reasoning</think>def\<close> the result is not
  \<open>(abcdef, reasoning)\<close>, and an input without any marker is not returned unchanged when
  it has surrounding whitespace.
\<close>

theorem extract_reasoning_counterexample:
  "extract_reasoning ''abc<think>reasoning</think>def'' \<noteq> (''abcdef'', ''reasoning'')
   \<and> extract_reasoning ''abc<think>reasoning</think>def'' = (''def'', ''abc<think>reasoning'')
   \<and> extract_reasoning '' hi '' \<noteq> ('' hi '', [])"
  by (simp add: extract_reasoning_def match_at_start_def think_open_def think_close_def
        strip_def is_space_def)

section \<open>Properties of the tool options\<close>

lemma check_param_valid: "check_param p \<noteq> None \<longleftrightarrow> valid_param p"
  by (cases p rule: valid_param.cases)
     (auto simp: check_param_def split: pyval.splits list.splits)


lemma add_params_result:
  assumes "\<forall>p \<in> set ps. valid_param p \<or> loggable p"
  shows "add_params ps built tool_legal
           = Inr (built @ List.map_filter check_param ps,
                  tool_legal \<and> list_all valid_param ps)"
  using assms
proof (induction ps arbitrary: built tool_legal)
  case Nil
  show ?case by (simp add: map_filter_simps)
next
  case (Cons p ps)
  then have rest: "\<forall>p \<in> set ps. valid_param p \<or> loggable p"
    and here: "valid_param p \<or> loggable p" by simp_all
  show ?case
  proof (cases "check_param p")
    case None
    with check_param_valid [of p] have invalid: "\<not> valid_param p" by simp
    with here obtain shown where "first_item p = Inr shown"
      by (auto simp: loggable_def split: sum.splits)
    with None invalid Cons.IH [OF rest] show ?thesis
      by (simp add: map_filter_simps)
  next
    case (Some q)
    with check_param_valid [of p] have "valid_param p" by simp
    with Some Cons.IH [OF rest] show ?thesis
      by (simp add: map_filter_simps)
  qed
qed

lemma build_each_result:
  assumes "\<forall>tool \<in> set ts. \<forall>p \<in> set (parameters_of tool). valid_param p \<or> loggable p"
  shows "build_each ts tool_options
           = Inr (tool_options
                  @ map (\<lambda>tool. built_option tool (accepted_params tool)) (filter valid_tool ts))"
  using assms
proof (induction ts arbitrary: tool_options)
  case Nil
  show ?case by simp
next
  case (Cons tool ts)
  then have rest: "\<forall>tool \<in> set ts. \<forall>p \<in> set (parameters_of tool). valid_param p \<or> loggable p"
    and here: "\<forall>p \<in> set (parameters_of tool). valid_param p \<or> loggable p" by simp_all
  from add_params_result [OF here, of "[]" True]
  have "add_params (parameters_of tool) [] True
          = Inr (accepted_params tool, valid_tool tool)"
    by (simp add: accepted_params_def valid_tool_def)
  with Cons.IH [OF rest] show ?case by simp
qed

text \<open>
  C9, as the code has it. When \<open>param[0]\<close> can be evaluated for every invalid parameter,
  \<open>_build_tool_options\<close> returns the options of exactly the valid tools, in their order,
  each with its parameters: a tool with an invalid parameter is dropped and the others
  stay. When no tool is valid the result is \<open>None\<close>, the very result for \<open>tools\<close> being
  \<open>None\<close> or empty.
\<close>

theorem build_tool_options_drops_invalid:
  "((\<forall>tool \<in> set tools. \<forall>p \<in> set (parameters_of tool). valid_param p \<or> loggable p) \<longrightarrow>
      build_tool_options (Some tools)
        = Inr (if filter valid_tool tools = [] then None
               else Some (map (\<lambda>tool. built_option tool (accepted_params tool))
                            (filter valid_tool tools))))
   \<and> build_tool_options None = (Inr None :: py_error + 't tool_option list option)
   \<and> build_tool_options (Some []) = (Inr None :: py_error + 't tool_option list option)"
proof (intro conjI impI)
  assume "\<forall>tool \<in> set tools. \<forall>p \<in> set (parameters_of tool). valid_param p \<or> loggable p"
  from build_each_result [OF this, of "[]"]
  show "build_tool_options (Some tools)
        = Inr (if filter valid_tool tools = [] then None
               else Some (map (\<lambda>tool. built_option tool (accepted_params tool))
                            (filter valid_tool tools)))"
    by (simp add: build_tool_options_def)
qed (simp_all add: build_tool_options_def)

lemmas tool_defs = build_tool_options_def parameters_of_def built_option_def check_param_def
  bad_tool_def good_tool_def accepted_params_def valid_tool_def loggable_def
  map_filter_simps

theorem build_tool_options_drops_invalid_witness:
  "build_tool_options (Some [bad_tool, good_tool])
     = Inr (Some [\<lparr>option_name = PyStr ''clock'', option_description = PyStr ''d'',
                   option_params = [(''zone'', (), ''time zone'', False, None)]\<rparr>])
   \<and> build_tool_options (Some [bad_tool]) = Inr None"
proof -
  have h1: "\<forall>tool \<in> set [bad_tool, good_tool].
              \<forall>p \<in> set (parameters_of tool). valid_param p \<or> loggable p"
    by (simp add: tool_defs)
  have h2: "\<forall>tool \<in> set [bad_tool].
              \<forall>p \<in> set (parameters_of tool). valid_param p \<or> loggable p"
    by (simp add: tool_defs)
  from build_tool_options_drops_invalid [of "[bad_tool, good_tool]"]
    build_tool_options_drops_invalid [of "[bad_tool]"] h1 h2
  show ?thesis by (simp add: tool_defs)
qed

text \<open>
  C9 as stated fails: the result for a list whose only tool is invalid is the result for
  no tools at all.
\<close>

theorem build_tool_options_counterexample:
  "build_tool_options (Some [bad_tool]) = build_tool_options None
   \<and> build_tool_options (Some [bad_tool]) = build_tool_options (Some [])"
  by (simp add: tool_defs)

text \<open>
  A parameter that is an empty tuple fails the first \<open>assert\<close>, and the handler's
  \<open>param[0]\<close> then raises \<open>IndexError\<close>: the call raises instead of dropping the tool.
\<close>

lemma build_tool_options_empty_tuple:
  "build_tool_options
     (Some [\<lparr>tool_name = Some (PyStr ''search''), tool_description = Some (PyStr ''d''),
             tool_parameters = Some [PyTuple []]\<rparr>, good_tool])
   = Inl IndexError"
  by (simp add: tool_defs)

end
